theory Spec2Isabelle
  imports Main
begin

section \<open>Errors\<close>

text \<open>
  The Python exceptions the notebook's code can raise.
  \<^item> \<open>NodeIDAbsentError\<close>: treelib's error for an identifier that is not in the tree
    (the spec's \<open>NotFound\<close>);
  \<^item> \<open>ValueError\<close>: \<^verbatim>\<open>max()\<close> or \<^verbatim>\<open>min()\<close> of an empty sequence (the spec's
    \<open>InvalidTree\<close> when raised inside \<^verbatim>\<open>minmax_tt\<close>, its \<open>NoLegalMoves\<close> when raised inside
    \<^verbatim>\<open>determine_move\<close>);
  \<^item> \<open>IndexError\<close>: an index out of range (\<^verbatim>\<open>identifier[-1]\<close> of an empty identifier);
  \<^item> \<open>NameError\<close>: a global name that is not bound (\<^verbatim>\<open>random\<close> in \<^verbatim>\<open>determine_move\<close>).
\<close>

datatype error = NodeIDAbsentError | ValueError | IndexError | NameError

section \<open>The game tree\<close>

text \<open>
  Modelled from the spec: the Game Tree is the external treelib \<^verbatim>\<open>Tree\<close> that the notebook
  unpickles; its class is not part of the notebook. Section 6 of the spec gives its
  interface: node lookup by identifier (\<open>NotFound\<close> when absent) and the ordered
  sequence of child identifiers. A node carries \<^verbatim>\<open>data.is_endstate()\<close>,
  \<^verbatim>\<open>data.get_value()\<close> and its children; of a child node the code reads only
  \<^verbatim>\<open>child.identifier\<close>, so the children are kept as identifiers.
\<close>

record node =
  is_endstate :: bool
  get_value :: int
  successors :: "string list"

type_synonym tree = "string \<rightharpoonup> node"

text \<open>\<^verbatim>\<open>tree[current_id]\<close>\<close>

definition tree_getitem :: "tree \<Rightarrow> string \<Rightarrow> error + node" where
  "tree_getitem tree nid =
     (case tree nid of None \<Rightarrow> Inl NodeIDAbsentError | Some n \<Rightarrow> Inr n)"

text \<open>\<^verbatim>\<open>[child.identifier for child in tree.children(current_id)]\<close>\<close>

definition tree_children :: "tree \<Rightarrow> string \<Rightarrow> error + string list" where
  "tree_children tree nid =
     (case tree nid of None \<Rightarrow> Inl NodeIDAbsentError | Some n \<Rightarrow> Inr (successors n))"

section \<open>Python built-ins\<close>

text \<open>\<^verbatim>\<open>max(scores)\<close> and \<^verbatim>\<open>min(scores)\<close>: \<^verbatim>\<open>ValueError\<close> on an empty sequence.\<close>

fun py_max :: "int list \<Rightarrow> error + int" where
  "py_max [] = Inl ValueError"
| "py_max (x # xs) = Inr (fold max xs x)"

fun py_min :: "int list \<Rightarrow> error + int" where
  "py_min [] = Inl ValueError"
| "py_min (x # xs) = Inr (fold min xs x)"

text \<open>
  A list comprehension \<^verbatim>\<open>[f(x) for x in xs]\<close> whose element expression may raise or
  may not return: the elements are evaluated from left to right and the first one that
  does not yield a value ends the comprehension.
\<close>

fun comprehension :: "('a \<Rightarrow> (error + 'b) option) \<Rightarrow> 'a list \<Rightarrow> (error + 'b list) option" where
  "comprehension f [] = Some (Inr [])"
| "comprehension f (x # xs) =
     (case f x of
        None \<Rightarrow> None
      | Some (Inl e) \<Rightarrow> Some (Inl e)
      | Some (Inr y) \<Rightarrow>
          (case comprehension f xs of
             None \<Rightarrow> None
           | Some (Inl e) \<Rightarrow> Some (Inl e)
           | Some (Inr ys) \<Rightarrow> Some (Inr (y # ys))))"

section \<open>The uncached evaluator\<close>

text \<open>
  \<^verbatim>\<open>minmax_tt\<close> of the notebook's first code cell. The first argument bounds the depth of
  the recursion (Python's call stack): \<open>None\<close> means that the call did not return within
  that depth, \<open>Some (Inl e)\<close> that it raised \<open>e\<close>, \<open>Some (Inr v)\<close> that it returned \<open>v\<close>.
\<close>

fun minmax_tt :: "nat \<Rightarrow> tree \<Rightarrow> string \<Rightarrow> bool \<Rightarrow> (error + int) option" where
  "minmax_tt 0 tree current_id is_max = None"
| "minmax_tt (Suc n) tree current_id is_max =
     (case tree_getitem tree current_id of
        Inl e \<Rightarrow> Some (Inl e)
      | Inr current_node \<Rightarrow>
          if is_endstate current_node then Some (Inr (get_value current_node))
          else
            (case tree_children tree current_id of
               Inl e \<Rightarrow> Some (Inl e)
             | Inr children_of_current_id \<Rightarrow>
                 (case comprehension (\<lambda>child. minmax_tt n tree child (\<not> is_max))
                         children_of_current_id of
                    None \<Rightarrow> None
                  | Some (Inl e) \<Rightarrow> Some (Inl e)
                  | Some (Inr scores) \<Rightarrow>
                      Some (if is_max then py_max scores else py_min scores))))"

section \<open>The memoization decorator\<close>

text \<open>
  The class \<^verbatim>\<open>Memoize_tree\<close>. The Python object holds \<^verbatim>\<open>fn\<close> and \<^verbatim>\<open>memo\<close>; \<^verbatim>\<open>fn\<close> is fixed
  when the decorator is applied and is a parameter of the call below. The field
  \<open>fn_log\<close> is an instrument that the Python object does not have: it lists, in the order
  of their completion, the invocations of \<^verbatim>\<open>self.fn\<close> with the key and the outcome of each.
  No definition reads it, so it has no influence on any result or on \<open>memo\<close>.
\<close>

record ('k, 'v) Memoize_tree =
  memo :: "'k \<rightharpoonup> 'v"
  fn_log :: "('k \<times> (error + 'v)) list"

text \<open>\<^verbatim>\<open>__init__\<close>: the empty memo buffer.\<close>

definition Memoize_tree_init :: "('k, 'v) Memoize_tree" where
  "Memoize_tree_init = \<lparr>memo = Map.empty, fn_log = []\<rparr>"

text \<open>
  \<^verbatim>\<open>__call__(self, *args)\<close> with \<^verbatim>\<open>args = (tree,) + function_call_hash\<close>: the key
  \<^verbatim>\<open>function_call_hash = args[1:]\<close> leaves the first argument out. The wrapped function
  receives the object because, in the notebook, it reaches the same object again through
  the global name \<^verbatim>\<open>minmax_tt\<close>.
\<close>

definition Memoize_tree_call ::
  "('t \<Rightarrow> 'k \<Rightarrow> ('k, 'v) Memoize_tree \<Rightarrow> ((error + 'v) \<times> ('k, 'v) Memoize_tree) option) \<Rightarrow>
   't \<Rightarrow> 'k \<Rightarrow> ('k, 'v) Memoize_tree \<Rightarrow> ((error + 'v) \<times> ('k, 'v) Memoize_tree) option" where
  "Memoize_tree_call fn tree function_call_hash self =
     (case memo self function_call_hash of
        Some v \<Rightarrow> Some (Inr v, self)
      | None \<Rightarrow>
          (case fn tree function_call_hash self of
             None \<Rightarrow> None
           | Some (Inl e, self') \<Rightarrow>
               Some (Inl e, self'\<lparr>fn_log := fn_log self' @ [(function_call_hash, Inl e)]\<rparr>)
           | Some (Inr v, self') \<Rightarrow>
               Some (Inr v, self'\<lparr>memo := (memo self')(function_call_hash \<mapsto> v),
                                  fn_log := fn_log self' @ [(function_call_hash, Inr v)]\<rparr>)))"

text \<open>A list comprehension whose element expression also changes a state.\<close>

fun comprehension_st ::
  "('a \<Rightarrow> 's \<Rightarrow> ((error + 'b) \<times> 's) option) \<Rightarrow> 'a list \<Rightarrow> 's \<Rightarrow> ((error + 'b list) \<times> 's) option" where
  "comprehension_st f [] s = Some (Inr [], s)"
| "comprehension_st f (x # xs) s =
     (case f x s of
        None \<Rightarrow> None
      | Some (Inl e, s') \<Rightarrow> Some (Inl e, s')
      | Some (Inr y, s') \<Rightarrow>
          (case comprehension_st f xs s' of
             None \<Rightarrow> None
           | Some (Inl e, s'') \<Rightarrow> Some (Inl e, s'')
           | Some (Inr ys, s'') \<Rightarrow> Some (Inr (y # ys), s'')))"

section \<open>The memoized evaluator\<close>

type_synonym cache = "(string \<times> bool, int) Memoize_tree"

text \<open>
  The function that \<^verbatim>\<open>@Memoize_tree\<close> decorates in the notebook's third code cell. Its
  recursive calls go through the global name \<^verbatim>\<open>minmax_tt\<close>, which by then names the
  \<^verbatim>\<open>Memoize_tree\<close> object: the parameter \<open>minmax_tt_global\<close>.
\<close>

definition minmax_tt_fn ::
  "(tree \<Rightarrow> string \<Rightarrow> bool \<Rightarrow> cache \<Rightarrow> ((error + int) \<times> cache) option) \<Rightarrow>
   tree \<Rightarrow> string \<times> bool \<Rightarrow> cache \<Rightarrow> ((error + int) \<times> cache) option" where
  "minmax_tt_fn minmax_tt_global tree args self =
     (case args of (current_id, is_max) \<Rightarrow>
        (case tree_getitem tree current_id of
           Inl e \<Rightarrow> Some (Inl e, self)
         | Inr current_node \<Rightarrow>
             if is_endstate current_node then Some (Inr (get_value current_node), self)
             else
               (case tree_children tree current_id of
                  Inl e \<Rightarrow> Some (Inl e, self)
                | Inr children_of_current_id \<Rightarrow>
                    (case comprehension_st (\<lambda>child. minmax_tt_global tree child (\<not> is_max))
                            children_of_current_id self of
                       None \<Rightarrow> None
                     | Some (Inl e, self') \<Rightarrow> Some (Inl e, self')
                     | Some (Inr scores, self') \<Rightarrow>
                         Some (if is_max then py_max scores else py_min scores, self')))))"

text \<open>
  The decorated \<^verbatim>\<open>minmax_tt\<close>: a call of the \<^verbatim>\<open>Memoize_tree\<close> object. The first argument
  bounds the depth of the nested calls of the object, as for the uncached evaluator.
\<close>

primrec minmax_tt_memo ::
  "nat \<Rightarrow> tree \<Rightarrow> string \<Rightarrow> bool \<Rightarrow> cache \<Rightarrow> ((error + int) \<times> cache) option" where
  "minmax_tt_memo 0 tree current_id is_max self = None"
| "minmax_tt_memo (Suc n) tree current_id is_max self =
     Memoize_tree_call (minmax_tt_fn (minmax_tt_memo n)) tree (current_id, is_max) self"

section \<open>The move selector\<close>

text \<open>\<^verbatim>\<open>identifier[-1]\<close>: the last symbol, as a string of length one.\<close>

definition py_last :: "string \<Rightarrow> error + string" where
  "py_last identifier = (if identifier = [] then Inl IndexError else Inr [last identifier])"

text \<open>\<^verbatim>\<open>xs[i]\<close> for an index that is not negative.\<close>

definition py_index :: "'a list \<Rightarrow> nat \<Rightarrow> error + 'a" where
  "py_index xs i = (if i < length xs then Inr (xs ! i) else Inl IndexError)"

text \<open>
  \<^verbatim>\<open>np.array(scores)\<close>. numpy is not part of the notebook. A list of Python integers that
  all fit a signed 64-bit integer becomes an array of that type and holds the scores as
  they are. For any other list numpy chooses a wider type (unsigned, floating point or
  object, depending on the version), in which a score may be rounded to another integer:
  the parameter \<open>np_wide\<close> gives the element that the array holds for each score of such
  a list.
\<close>

definition int64 :: "int \<Rightarrow> bool" where
  "int64 v \<longleftrightarrow> - (2 ^ 63) \<le> v \<and> v < 2 ^ 63"

definition np_array :: "(int list \<Rightarrow> int \<Rightarrow> int) \<Rightarrow> int list \<Rightarrow> int list" where
  "np_array np_wide scores =
     (if list_all int64 scores then scores else map (np_wide scores) scores)"

text \<open>\<^verbatim>\<open>np.where(raw_scores == best)[0]\<close>: the positions that hold \<open>best\<close>, ascending.\<close>

definition np_where_eq :: "int list \<Rightarrow> int \<Rightarrow> nat list" where
  "np_where_eq raw_scores best = filter (\<lambda>i. raw_scores ! i = best) [0..<length raw_scores]"

text \<open>
  \<^verbatim>\<open>random.choice(seq)\<close> of the standard library returns \<^verbatim>\<open>seq[self._randbelow(len(seq))]\<close>
  and raises \<^verbatim>\<open>IndexError\<close> on an empty sequence. \<open>randbelow k\<close> is the number that the
  generator draws below \<open>k\<close>; the standard library draws it uniformly from \<open>{0..<k}\<close>.
\<close>

definition random_choice :: "(nat \<Rightarrow> nat) \<Rightarrow> 'a list \<Rightarrow> error + 'a" where
  "random_choice randbelow seq =
     (if seq = [] then Inl IndexError else py_index seq (randbelow (length seq)))"

text \<open>
  \<^verbatim>\<open>determine_move\<close>, as it runs once \<^verbatim>\<open>minmax_tt\<close> names the memoized object. The first
  argument bounds the depth of the calls of \<^verbatim>\<open>minmax_tt\<close>.

  The parameter \<open>random\<close> is the binding of the global name \<^verbatim>\<open>random\<close>. No cell of the
  notebook imports or assigns it, so for the notebook as it is committed the binding is
  \<open>None\<close>, and the name raises \<^verbatim>\<open>NameError\<close> when the \<^verbatim>\<open>return\<close> statement looks it up,
  which is after both comprehensions and the call of \<^verbatim>\<open>np.array\<close>, and before \<^verbatim>\<open>max\<close> or
  \<^verbatim>\<open>min\<close> is called. The binding \<open>Some randbelow\<close> is a session in which the name is
  bound to the standard module, whose generator draws \<open>randbelow k\<close> below \<open>k\<close>.
\<close>

definition determine_move ::
  "nat \<Rightarrow> tree \<Rightarrow> string \<Rightarrow> bool \<Rightarrow> (nat \<Rightarrow> nat) option \<Rightarrow> (int list \<Rightarrow> int \<Rightarrow> int) \<Rightarrow> cache \<Rightarrow>
   ((error + string) \<times> cache) option" where
  "determine_move n tree current_id is_max random np_wide self =
     (case tree_children tree current_id of
        Inl e \<Rightarrow> Some (Inl e, self)
      | Inr potential_moves \<Rightarrow>
          (case comprehension (\<lambda>child. Some (py_last child)) potential_moves of
             None \<Rightarrow> None
           | Some (Inl e) \<Rightarrow> Some (Inl e, self)
           | Some (Inr moves) \<Rightarrow>
               (case comprehension_st (\<lambda>child. minmax_tt_memo n tree child (\<not> is_max))
                       potential_moves self of
                  None \<Rightarrow> None
                | Some (Inl e, self') \<Rightarrow> Some (Inl e, self')
                | Some (Inr scores, self') \<Rightarrow>
                    (let raw_scores = np_array np_wide scores in
                     case random of
                       None \<Rightarrow> Some (Inl NameError, self')
                     | Some randbelow \<Rightarrow>
                         (case (if is_max then py_max raw_scores else py_min raw_scores) of
                            Inl e \<Rightarrow> Some (Inl e, self')
                          | Inr best \<Rightarrow>
                              (case random_choice randbelow (np_where_eq raw_scores best) of
                                 Inl e \<Rightarrow> Some (Inl e, self')
                               | Inr i \<Rightarrow> Some (py_index moves i, self')))))))"

section \<open>The warm-up driver\<close>

text \<open>
  \<^verbatim>\<open>itertools.permutations(iterable, r)\<close>: the \<open>r\<close>-length arrangements of the elements,
  taken by position, in lexicographic order of the positions.
\<close>

fun permutations :: "'a list \<Rightarrow> nat \<Rightarrow> 'a list list" where
  "permutations xs 0 = [[]]"
| "permutations xs (Suc r) =
     concat (map (\<lambda>i. map ((#) (xs ! i)) (permutations (take i xs @ drop (Suc i) xs) r))
               [0..<length xs])"

text \<open>
  \<^verbatim>\<open>all_states\<close>: for each \<^verbatim>\<open>length in range(1,9)\<close>, the joined permutations of that
  length, appended in this order.
\<close>

definition all_states :: "string list" where
  "all_states =
     concat (map (\<lambda>r. map concat
                    (permutations [''a'', ''b'', ''c'', ''d'', ''e'', ''f'', ''g'', ''h'', ''i''] r))
               [1..<9])"

text \<open>A \<^verbatim>\<open>for\<close> loop: an error that its body raises ends the loop and leaves it.\<close>

fun for_loop ::
  "'a list \<Rightarrow> ('a \<Rightarrow> 's \<Rightarrow> ((error + unit) \<times> 's) option) \<Rightarrow> 's \<Rightarrow> ((error + unit) \<times> 's) option" where
  "for_loop [] body s = Some (Inr (), s)"
| "for_loop (x # xs) body s =
     (case body x s of
        None \<Rightarrow> None
      | Some (Inl e, s') \<Rightarrow> Some (Inl e, s')
      | Some (Inr u, s') \<Rightarrow> for_loop xs body s')"

text \<open>\<^verbatim>\<open>try: move = ... except: pass\<close>: the bare \<^verbatim>\<open>except\<close> takes every exception.\<close>

definition try_except_pass :: "((error + 'a) \<times> 's) option \<Rightarrow> ((error + unit) \<times> 's) option" where
  "try_except_pass attempt =
     (case attempt of
        None \<Rightarrow> None
      | Some (Inl e, s) \<Rightarrow> Some (Inr (), s)
      | Some (Inr move, s) \<Rightarrow> Some (Inr (), s))"

text \<open>
  The loop over \<^verbatim>\<open>all_states\<close>. \<open>random\<close> is the binding of the global name \<^verbatim>\<open>random\<close>
  again; when it is bound, it gives for each candidate the generator's draw function
  while that candidate is handled (each candidate occurs once).
\<close>

definition warmup ::
  "nat \<Rightarrow> tree \<Rightarrow> (string \<Rightarrow> nat \<Rightarrow> nat) option \<Rightarrow> (int list \<Rightarrow> int \<Rightarrow> int) \<Rightarrow> cache \<Rightarrow>
   ((error + unit) \<times> cache) option" where
  "warmup n tree random np_wide self =
     for_loop all_states
       (\<lambda>state self. try_except_pass
          (determine_move n tree state False (map_option (\<lambda>draw. draw state) random) np_wide self))
       self"

section \<open>Trees, caches and sessions\<close>

text \<open>
  A tree has no cycle: some rank decreases from every node to each of its children (in a
  finite tree, the height of the node).
\<close>

definition tree_ranked :: "tree \<Rightarrow> (string \<Rightarrow> nat) \<Rightarrow> bool" where
  "tree_ranked tree rank \<longleftrightarrow>
     (\<forall>nid n child. tree nid = Some n \<longrightarrow> child \<in> set (successors n) \<longrightarrow> rank child < rank nid)"

text \<open>
  The tree is well formed: it has no cycle, every child is a node of the tree with an
  identifier that is not empty, and every node that is not terminal has a child.
\<close>

definition tree_well_formed :: "tree \<Rightarrow> (string \<Rightarrow> nat) \<Rightarrow> bool" where
  "tree_well_formed tree rank \<longleftrightarrow>
     tree_ranked tree rank \<and>
     (\<forall>nid n. tree nid = Some n \<longrightarrow>
        (\<forall>child \<in> set (successors n). tree child \<noteq> None \<and> child \<noteq> []) \<and>
        (\<not> is_endstate n \<longrightarrow> successors n \<noteq> []))"

text \<open>Every stored score is the score that the uncached evaluator returns on this tree.\<close>

definition memo_sound :: "tree \<Rightarrow> cache \<Rightarrow> bool" where
  "memo_sound tree self \<longleftrightarrow>
     (\<forall>current_id is_max v. memo self (current_id, is_max) = Some v \<longrightarrow>
        (\<exists>n. minmax_tt n tree current_id is_max = Some (Inr v)))"

text \<open>
  The states of the memoized object in a session: the fresh object, and the state after
  any call of the decorated \<^verbatim>\<open>minmax_tt\<close> that came back (with a score or an error).
\<close>

inductive session :: "tree \<Rightarrow> cache \<Rightarrow> bool" for tree :: tree where
  session_init: "session tree Memoize_tree_init"
| session_call: "session tree self \<Longrightarrow>
     minmax_tt_memo n tree current_id is_max self = Some (outcome, self') \<Longrightarrow> session tree self'"

text \<open>
  The number of invocations of the wrapped function for a key, and the number of those
  that returned a score.
\<close>

definition invocations :: "('k \<times> (error + 'v)) list \<Rightarrow> 'k \<Rightarrow> nat" where
  "invocations log key = length (filter (\<lambda>entry. fst entry = key) log)"

definition evaluations :: "('k \<times> (error + 'v)) list \<Rightarrow> 'k \<Rightarrow> nat" where
  "evaluations log key = length (filter (\<lambda>entry. fst entry = key \<and> \<not> isl (snd entry)) log)"

text \<open>
  The state \<open>self'\<close> comes from \<open>self\<close> by work on identifiers of a rank below \<open>b\<close> only:
  no stored entry is changed, entries are added only for such identifiers, and the
  wrapped function was invoked only for such identifiers.
\<close>

definition changes_below :: "(string \<Rightarrow> nat) \<Rightarrow> nat \<Rightarrow> cache \<Rightarrow> cache \<Rightarrow> bool" where
  "changes_below rank b self self' \<longleftrightarrow>
     (\<forall>key. memo self key \<noteq> None \<longrightarrow> memo self' key = memo self key) \<and>
     (\<forall>key. b \<le> rank (fst key) \<longrightarrow> memo self' key = memo self key) \<and>
     (\<exists>new. fn_log self' = fn_log self @ new \<and> (\<forall>entry \<in> set new. rank (fst (fst entry)) < b))"

text \<open>
  Each key has been evaluated to a score once if it is stored and never if it is not.
\<close>

definition evaluated_once :: "cache \<Rightarrow> bool" where
  "evaluated_once self \<longleftrightarrow>
     (\<forall>key. evaluations (fn_log self) key = (if memo self key = None then 0 else 1))"

text \<open>
  Whenever a score is stored for a position that is not terminal, the scores of all its
  children are stored for the opposite role.
\<close>

definition memo_closed :: "tree \<Rightarrow> cache \<Rightarrow> bool" where
  "memo_closed tree self \<longleftrightarrow>
     (\<forall>current_id is_max v current_node child.
        memo self (current_id, is_max) = Some v \<longrightarrow> tree current_id = Some current_node \<longrightarrow>
        \<not> is_endstate current_node \<longrightarrow> child \<in> set (successors current_node) \<longrightarrow>
        memo self (child, \<not> is_max) \<noteq> None)"

section \<open>Example trees\<close>

text \<open>
  The scenario of the spec: a single row of three cells; the root has the terminal
  children \<open>a\<close>, \<open>b\<close>, \<open>c\<close> with the values \<open>+1\<close>, \<open>-1\<close>, \<open>+1\<close>.
\<close>

definition row_tree :: tree where
  "row_tree = map_of
     [(''root'', \<lparr>is_endstate = False, get_value = 0, successors = [''a'', ''b'', ''c'']\<rparr>),
      (''a'', \<lparr>is_endstate = True, get_value = 1, successors = []\<rparr>),
      (''b'', \<lparr>is_endstate = True, get_value = - 1, successors = []\<rparr>),
      (''c'', \<lparr>is_endstate = True, get_value = 1, successors = []\<rparr>)]"

definition row_score :: "string \<Rightarrow> int" where
  "row_score child = (if child = ''b'' then - 1 else 1)"

definition row_rank :: "string \<Rightarrow> nat" where
  "row_rank nid = (if nid = ''root'' then 1 else 0)"

text \<open>
  A two-cell game: after \<open>a\<close> the only move is \<open>b\<close>, which ends the game with \<open>+1\<close>, and
  the other way round with \<open>-1\<close>.
\<close>

definition pair_tree :: tree where
  "pair_tree = map_of
     [(''root'', \<lparr>is_endstate = False, get_value = 0, successors = [''a'', ''b'']\<rparr>),
      (''a'', \<lparr>is_endstate = False, get_value = 0, successors = [''ab'']\<rparr>),
      (''b'', \<lparr>is_endstate = False, get_value = 0, successors = [''ba'']\<rparr>),
      (''ab'', \<lparr>is_endstate = True, get_value = 1, successors = []\<rparr>),
      (''ba'', \<lparr>is_endstate = True, get_value = - 1, successors = []\<rparr>)]"

definition pair_rank :: "string \<Rightarrow> nat" where
  "pair_rank nid = (if nid = ''root'' then 2 else if length nid = 1 then 1 else 0)"

text \<open>
  The memoized object over \<open>pair_tree\<close> after the call \<^verbatim>\<open>minmax_tt(tree, 'a', False)\<close> on
  the fresh object, and after the call \<^verbatim>\<open>minmax_tt(tree, 'root', True)\<close> that follows it.
\<close>

definition pair_cache_a :: cache where
  "pair_cache_a =
     \<lparr>memo = [(''ab'', True) \<mapsto> 1, (''a'', False) \<mapsto> 1],
      fn_log = [((''ab'', True), Inr 1), ((''a'', False), Inr 1)]\<rparr>"

definition pair_cache_root :: cache where
  "pair_cache_root =
     \<lparr>memo = [(''ab'', True) \<mapsto> 1, (''a'', False) \<mapsto> 1, (''ba'', True) \<mapsto> - 1,
              (''b'', False) \<mapsto> - 1, (''root'', True) \<mapsto> 1],
      fn_log = [((''ab'', True), Inr 1), ((''a'', False), Inr 1), ((''ba'', True), Inr (- 1)),
                ((''b'', False), Inr (- 1)), ((''root'', True), Inr 1)]\<rparr>"

text \<open>A game of three moves with a single line of play, which ends with \<open>+1\<close>.\<close>

definition chain_tree :: tree where
  "chain_tree = map_of
     [(''root'', \<lparr>is_endstate = False, get_value = 0, successors = [''a'']\<rparr>),
      (''a'', \<lparr>is_endstate = False, get_value = 0, successors = [''ab'']\<rparr>),
      (''ab'', \<lparr>is_endstate = False, get_value = 0, successors = [''abc'']\<rparr>),
      (''abc'', \<lparr>is_endstate = True, get_value = 1, successors = []\<rparr>)]"

definition chain_rank :: "string \<Rightarrow> nat" where
  "chain_rank nid = (if nid = ''root'' then 3 else 3 - length nid)"

text \<open>
  A tree that breaks the contract of the Game Tree: the node \<open>ac\<close> is not terminal and
  has no child.
\<close>

definition broken_tree :: tree where
  "broken_tree = map_of
     [(''root'', \<lparr>is_endstate = False, get_value = 0, successors = [''a'']\<rparr>),
      (''a'', \<lparr>is_endstate = False, get_value = 0, successors = [''ab'', ''ac'']\<rparr>),
      (''ab'', \<lparr>is_endstate = True, get_value = 1, successors = []\<rparr>),
      (''ac'', \<lparr>is_endstate = False, get_value = 0, successors = []\<rparr>)]"

definition broken_rank :: "string \<Rightarrow> nat" where
  "broken_rank nid = (if nid = ''root'' then 2 else if nid = ''a'' then 1 else 0)"

text \<open>
  The memoized object over \<open>broken_tree\<close> after the call \<^verbatim>\<open>minmax_tt(tree, 'a', True)\<close> on the
  fresh object has raised \<^verbatim>\<open>ValueError\<close>, and after the same call once more.
\<close>

definition broken_cache_once :: cache where
  "broken_cache_once =
     \<lparr>memo = [(''ab'', False) \<mapsto> 1],
      fn_log = [((''ab'', False), Inr 1), ((''ac'', False), Inl ValueError),
                ((''a'', True), Inl ValueError)]\<rparr>"

definition broken_cache_twice :: cache where
  "broken_cache_twice =
     \<lparr>memo = [(''ab'', False) \<mapsto> 1],
      fn_log = [((''ab'', False), Inr 1), ((''ac'', False), Inl ValueError),
                ((''a'', True), Inl ValueError), ((''ac'', False), Inl ValueError),
                ((''a'', True), Inl ValueError)]\<rparr>"

section \<open>Python built-ins and comprehensions\<close>

lemma py_max_Max: "xs \<noteq> [] \<Longrightarrow> py_max xs = Inr (Max (set xs))"
proof (cases xs)
  case Nil
  assume "xs \<noteq> []"
  with Nil show ?thesis by simp
next
  case (Cons x ys)
  have "fold max ys x = Max (set (x # ys))"
    by (simp only: Max.set_eq_fold)
  with Cons show ?thesis by simp
qed

lemma py_min_Min: "xs \<noteq> [] \<Longrightarrow> py_min xs = Inr (Min (set xs))"
proof (cases xs)
  case Nil
  assume "xs \<noteq> []"
  with Nil show ?thesis by simp
next
  case (Cons x ys)
  have "fold min ys x = Min (set (x # ys))"
    by (simp only: Min.set_eq_fold)
  with Cons show ?thesis by simp
qed

lemma comprehension_all_values:
  "(\<And>x. x \<in> set xs \<Longrightarrow> f x = Some (Inr (g x))) \<Longrightarrow> comprehension f xs = Some (Inr (map g xs))"
  by (induction xs) simp_all

section \<open>The uncached evaluator returns a score on a well-formed tree\<close>

lemma minmax_tt_value:
  assumes "tree_well_formed tree rank"
  shows "tree current_id \<noteq> None \<Longrightarrow> rank current_id < n \<Longrightarrow>
     \<exists>v. minmax_tt n tree current_id is_max = Some (Inr v)"
proof (induction n arbitrary: current_id is_max)
  case 0
  then show ?case by simp
next
  case (Suc n)
  from assms have ranked: "tree_ranked tree rank"
    by (simp add: tree_well_formed_def)
  from Suc.prems(1) obtain current_node where node: "tree current_id = Some current_node"
    by blast
  show ?case
  proof (cases "is_endstate current_node")
    case True
    with node show ?thesis
      by (simp add: tree_getitem_def)
  next
    case False
    with assms node have ne: "successors current_node \<noteq> []"
      unfolding tree_well_formed_def by blast
    have "\<exists>v. minmax_tt n tree child (\<not> is_max) = Some (Inr v)"
      if child: "child \<in> set (successors current_node)" for child
    proof -
      from assms node child have present: "tree child \<noteq> None"
        unfolding tree_well_formed_def by blast
      from ranked node child have "rank child < rank current_id"
        unfolding tree_ranked_def by blast
      with Suc.prems(2) have "rank child < n"
        by simp
      with present show ?thesis
        by (rule Suc.IH)
    qed
    then obtain score where
      "\<forall>child \<in> set (successors current_node). minmax_tt n tree child (\<not> is_max) = Some (Inr (score child))"
      by metis
    then have scores: "comprehension (\<lambda>child. minmax_tt n tree child (\<not> is_max)) (successors current_node)
        = Some (Inr (map score (successors current_node)))"
      by (intro comprehension_all_values) simp
    from ne obtain c cs where "successors current_node = c # cs"
      by (cases "successors current_node") auto
    with node False scores show ?thesis
      by (simp add: tree_getitem_def tree_children_def)
  qed
qed

lemma row_tree_well_formed: "tree_well_formed row_tree row_rank"
  unfolding tree_well_formed_def tree_ranked_def
  by (auto simp: row_tree_def row_rank_def split: if_splits)

section \<open>The uncached evaluator does not depend on the depth bound\<close>

lemma comprehension_mono:
  "(\<And>x y. x \<in> set xs \<Longrightarrow> f x = Some y \<Longrightarrow> g x = Some y) \<Longrightarrow>
   comprehension f xs = Some R \<Longrightarrow> comprehension g xs = Some R"
proof (induction xs arbitrary: R)
  case Nil
  then show ?case by simp
next
  case (Cons x xs)
  show ?case
  proof (cases "f x")
    case None
    with Cons.prems(2) show ?thesis by simp
  next
    case (Some y)
    then have gx: "g x = Some y" using Cons.prems(1) by simp
    show ?thesis
    proof (cases y)
      case (Inl e)
      with Some gx Cons.prems(2) show ?thesis by simp
    next
      case (Inr v)
      show ?thesis
      proof (cases "comprehension f xs")
        case None
        with Some Inr Cons.prems(2) show ?thesis by simp
      next
        case (Some R')
        have "comprehension g xs = Some R'"
          using Cons.IH [OF _ Some] Cons.prems(1) by simp
        with Some \<open>f x = Some y\<close> gx Inr Cons.prems(2) show ?thesis by simp
      qed
    qed
  qed
qed

lemma minmax_tt_Suc:
  "minmax_tt n tree current_id is_max = Some x \<Longrightarrow> minmax_tt (Suc n) tree current_id is_max = Some x"
proof (induction n arbitrary: current_id is_max x)
  case 0
  then show ?case by simp
next
  case (Suc n)
  have step: "comprehension (\<lambda>child. minmax_tt n tree child b) cs = Some R \<Longrightarrow>
        comprehension (\<lambda>child. minmax_tt (Suc n) tree child b) cs = Some R" for cs R b
    by (erule comprehension_mono [rotated]) (rule Suc.IH)
  from Suc.prems show ?case
    by (subst minmax_tt.simps, subst (asm) minmax_tt.simps)
       (auto simp del: minmax_tt.simps split: sum.splits option.splits if_splits dest: step)
qed

lemma minmax_tt_mono:
  "minmax_tt n tree current_id is_max = Some x \<Longrightarrow> n \<le> m \<Longrightarrow> minmax_tt m tree current_id is_max = Some x"
  by (induction m) (auto simp: le_Suc_eq dest: minmax_tt_Suc simp del: minmax_tt.simps)

lemma minmax_tt_deterministic:
  assumes "minmax_tt n tree current_id is_max = Some x" "minmax_tt m tree current_id is_max = Some y"
  shows "x = y"
proof -
  from assms(1) have "minmax_tt (max n m) tree current_id is_max = Some x"
    by (rule minmax_tt_mono) simp
  moreover from assms(2) have "minmax_tt (max n m) tree current_id is_max = Some y"
    by (rule minmax_tt_mono) simp
  ultimately show ?thesis by simp
qed

section \<open>The memoized evaluator against the uncached one\<close>

lemma comprehension_st_transfer:
  assumes "\<And>x s y. x \<in> set xs \<Longrightarrow> P s \<Longrightarrow> f x = Some y \<Longrightarrow> \<exists>s'. g x s = Some (y, s') \<and> P s'"
    and "P s" and "comprehension f xs = Some R"
  shows "\<exists>s'. comprehension_st g xs s = Some (R, s') \<and> P s'"
  using assms
proof (induction xs arbitrary: s R)
  case Nil
  then show ?case by auto
next
  case (Cons x xs)
  from Cons.prems(3) obtain y where fx: "f x = Some y"
    by (cases "f x") auto
  from Cons.prems(1) [OF _ Cons.prems(2) fx] obtain s1 where gx: "g x s = Some (y, s1)" and P1: "P s1"
    by auto
  show ?case
  proof (cases y)
    case (Inl e)
    with fx gx P1 Cons.prems(3) show ?thesis by auto
  next
    case (Inr v)
    with fx Cons.prems(3) obtain R' where rest: "comprehension f xs = Some R'"
      by (cases "comprehension f xs") auto
    have "\<exists>s'. comprehension_st g xs s1 = Some (R', s') \<and> P s'"
      using Cons.prems(1) P1 rest by (intro Cons.IH) auto
    then obtain s2 where "comprehension_st g xs s1 = Some (R', s2)" "P s2"
      by auto
    with fx gx Inr rest Cons.prems(3) show ?thesis
      by (cases R') auto
  qed
qed

lemma memo_sound_fn_log [simp]:
  "memo_sound tree (self\<lparr>fn_log := l\<rparr>) = memo_sound tree self"
  by (simp add: memo_sound_def)

lemma memo_sound_store:
  "memo_sound tree self \<Longrightarrow> minmax_tt n tree current_id is_max = Some (Inr v) \<Longrightarrow>
   memo_sound tree (self\<lparr>memo := (memo self)((current_id, is_max) \<mapsto> v)\<rparr>)"
  unfolding memo_sound_def by auto

lemma minmax_tt_memo_transparent:
  "memo_sound tree self \<Longrightarrow> minmax_tt n tree current_id is_max = Some res \<Longrightarrow>
   \<exists>self'. minmax_tt_memo n tree current_id is_max self = Some (res, self') \<and> memo_sound tree self'"
proof (induction n arbitrary: current_id is_max res self)
  case 0
  then show ?case by simp
next
  case (Suc n)
  note sound = Suc.prems(1) and plain = Suc.prems(2)
  show ?case
  proof (cases "memo self (current_id, is_max)")
    case (Some v)
    from sound Some obtain m where "minmax_tt m tree current_id is_max = Some (Inr v)"
      unfolding memo_sound_def by blast
    with plain have "res = Inr v"
      by (rule minmax_tt_deterministic)
    with Some sound show ?thesis
      by (simp add: Memoize_tree_call_def)
  next
    case None
    have body: "\<exists>self1. minmax_tt_fn (minmax_tt_memo n) tree (current_id, is_max) self = Some (res, self1)
        \<and> memo_sound tree self1"
    proof (cases "tree_getitem tree current_id")
      case (Inl e)
      with plain sound show ?thesis by (simp add: minmax_tt_fn_def)
    next
      case (Inr current_node)
      show ?thesis
      proof (cases "is_endstate current_node")
        case True
        with Inr plain sound show ?thesis by (simp add: minmax_tt_fn_def)
      next
        case False
        show ?thesis
        proof (cases "tree_children tree current_id")
          case (Inl e)
          with Inr False plain sound show ?thesis by (simp add: minmax_tt_fn_def)
        next
          case cs: (Inr cs)
          from plain Inr False cs obtain R where
            R: "comprehension (\<lambda>child. minmax_tt n tree child (\<not> is_max)) cs = Some R"
            by (cases "comprehension (\<lambda>child. minmax_tt n tree child (\<not> is_max)) cs") auto
          have "\<exists>s'. comprehension_st (\<lambda>child. minmax_tt_memo n tree child (\<not> is_max)) cs self = Some (R, s')
                  \<and> memo_sound tree s'"
            using sound R
            by (intro comprehension_st_transfer
                  [where f = "\<lambda>child. minmax_tt n tree child (\<not> is_max)" and P = "memo_sound tree"])
               (auto intro: Suc.IH)
          then obtain s1 where
            s1: "comprehension_st (\<lambda>child. minmax_tt_memo n tree child (\<not> is_max)) cs self = Some (R, s1)"
            and sound1: "memo_sound tree s1"
            by auto
          from plain Inr False cs R s1 sound1 show ?thesis
            by (cases R) (auto simp: minmax_tt_fn_def)
        qed
      qed
    qed
    then obtain self1 where
      fn: "minmax_tt_fn (minmax_tt_memo n) tree (current_id, is_max) self = Some (res, self1)"
      and sound1: "memo_sound tree self1"
      by auto
    show ?thesis
    proof (cases res)
      case (Inl e)
      with None fn sound1 show ?thesis
        by (simp add: Memoize_tree_call_def)
    next
      case (Inr v)
      from plain have "minmax_tt (Suc n) tree current_id is_max = Some (Inr v)"
        unfolding Inr .
      then have "memo_sound tree (self1\<lparr>memo := (memo self1)((current_id, is_max) \<mapsto> v)\<rparr>)"
        by (rule memo_sound_store [OF sound1])
      with Inr None fn show ?thesis
        by (simp add: Memoize_tree_call_def)
    qed
  qed
qed

lemma comprehension_st_back:
  assumes "\<And>x s y s'. x \<in> set xs \<Longrightarrow> P s \<Longrightarrow> g x s = Some (y, s') \<Longrightarrow> P s' \<and> (\<exists>m. f m x = Some y)"
    and "\<And>m m' x y. f m x = Some y \<Longrightarrow> m \<le> m' \<Longrightarrow> f (m'::nat) x = Some y"
    and "P s" and "comprehension_st g xs s = Some (R, s')"
  shows "P s' \<and> (\<exists>m. comprehension (f m) xs = Some R)"
  using assms(1,3,4)
proof (induction xs arbitrary: s R)
  case Nil
  then show ?case by auto
next
  case (Cons x xs)
  from Cons.prems(3) obtain y s1 where gx: "g x s = Some (y, s1)"
    by (cases "g x s") auto
  from Cons.prems(1) [OF _ Cons.prems(2) gx] obtain m1 where P1: "P s1" and fx: "f m1 x = Some y"
    by auto
  show ?case
  proof (cases y)
    case (Inl e)
    with gx fx P1 Cons.prems(3) have "P s'" "comprehension (f m1) (x # xs) = Some R"
      by auto
    then show ?thesis by blast
  next
    case (Inr v)
    with gx Cons.prems(3) obtain R' where rest: "comprehension_st g xs s1 = Some (R', s')"
      by (cases "comprehension_st g xs s1") (auto split: sum.splits)
    have "P s' \<and> (\<exists>m. comprehension (f m) xs = Some R')"
      using Cons.prems(1) P1 rest by (intro Cons.IH) auto
    then obtain m2 where P': "P s'" and fxs: "comprehension (f m2) xs = Some R'"
      by auto
    have a: "f (max m1 m2) x = Some y"
      using fx by (rule assms(2)) simp
    have b: "comprehension (f (max m1 m2)) xs = Some R'"
      using _ fxs by (rule comprehension_mono) (auto intro: assms(2))
    from gx Inr rest Cons.prems(3) a b have "comprehension (f (max m1 m2)) (x # xs) = Some R"
      by (cases R') auto
    with P' show ?thesis by blast
  qed
qed

lemma minmax_tt_memo_sound:
  "memo_sound tree self \<Longrightarrow> minmax_tt_memo n tree current_id is_max self = Some (res, self') \<Longrightarrow>
   memo_sound tree self' \<and> (\<exists>m. minmax_tt m tree current_id is_max = Some res)"
proof (induction n arbitrary: current_id is_max res self self')
  case 0
  then show ?case by simp
next
  case (Suc n)
  note sound = Suc.prems(1) and run = Suc.prems(2)
  show ?case
  proof (cases "memo self (current_id, is_max)")
    case (Some v)
    with run have "res = Inr v" "self' = self"
      by (simp_all add: Memoize_tree_call_def)
    with sound Some show ?thesis
      unfolding memo_sound_def by blast
  next
    case None
    with run obtain self1 where
      fn: "minmax_tt_fn (minmax_tt_memo n) tree (current_id, is_max) self = Some (res, self1)"
      and memo': "memo self' = (case res of Inl e \<Rightarrow> memo self1 | Inr v \<Rightarrow> (memo self1)((current_id, is_max) \<mapsto> v))"
      by (auto simp: Memoize_tree_call_def split: option.splits sum.splits)
    have body: "memo_sound tree self1 \<and> (\<exists>m. minmax_tt m tree current_id is_max = Some res)"
    proof (cases "tree_getitem tree current_id")
      case (Inl e)
      with fn sound have "memo_sound tree self1" "minmax_tt (Suc 0) tree current_id is_max = Some res"
        by (auto simp: minmax_tt_fn_def)
      then show ?thesis by blast
    next
      case (Inr current_node)
      show ?thesis
      proof (cases "is_endstate current_node")
        case True
        with Inr fn sound have "memo_sound tree self1" "minmax_tt (Suc 0) tree current_id is_max = Some res"
          by (auto simp: minmax_tt_fn_def)
        then show ?thesis by blast
      next
        case False
        show ?thesis
        proof (cases "tree_children tree current_id")
          case (Inl e)
          with Inr False fn sound
          have "memo_sound tree self1" "minmax_tt (Suc 0) tree current_id is_max = Some res"
            by (auto simp: minmax_tt_fn_def)
          then show ?thesis by blast
        next
          case cs: (Inr cs)
          from fn Inr False cs obtain R where
            R: "comprehension_st (\<lambda>child. minmax_tt_memo n tree child (\<not> is_max)) cs self = Some (R, self1)"
            and res: "res = (case R of Inl e \<Rightarrow> Inl e | Inr scores \<Rightarrow> if is_max then py_max scores else py_min scores)"
            by (auto simp: minmax_tt_fn_def split: option.splits sum.splits)
          have "memo_sound tree self1 \<and>
              (\<exists>m. comprehension (\<lambda>child. minmax_tt m tree child (\<not> is_max)) cs = Some R)"
            using sound R
            by (intro comprehension_st_back
                  [where g = "\<lambda>child. minmax_tt_memo n tree child (\<not> is_max)"
                     and f = "\<lambda>m child. minmax_tt m tree child (\<not> is_max)"
                     and P = "memo_sound tree" and s = self])
               (auto dest: Suc.IH intro: minmax_tt_mono)
          then obtain m where sound1: "memo_sound tree self1"
            and plain: "comprehension (\<lambda>child. minmax_tt m tree child (\<not> is_max)) cs = Some R"
            by auto
          from Inr False cs plain res have "minmax_tt (Suc m) tree current_id is_max = Some res"
            by (cases R) auto
          with sound1 show ?thesis by blast
        qed
      qed
    qed
    then obtain m where sound1: "memo_sound tree self1"
      and plain: "minmax_tt m tree current_id is_max = Some res"
      by auto
    have "memo_sound tree self'"
    proof (cases res)
      case (Inl e)
      with memo' sound1 show ?thesis by (simp add: memo_sound_def)
    next
      case (Inr v)
      with plain memo' sound1 show ?thesis
        unfolding memo_sound_def by auto
    qed
    with plain show ?thesis by blast
  qed
qed

lemma session_sound: "session tree self \<Longrightarrow> memo_sound tree self"
proof (induction rule: session.induct)
  case session_init
  show ?case by (simp add: memo_sound_def Memoize_tree_init_def)
next
  case (session_call self n current_id is_max outcome self')
  then show ?case using minmax_tt_memo_sound by blast
qed

section \<open>What a call of the memoized evaluator changes\<close>

lemma comprehension_st_invariant:
  assumes "\<And>x s y s'. x \<in> set xs \<Longrightarrow> P s \<Longrightarrow> g x s = Some (y, s') \<Longrightarrow> P s'"
    and "P s" and "comprehension_st g xs s = Some (R, s')"
  shows "P s'"
  using assms
proof (induction xs arbitrary: s R)
  case Nil
  then show ?case by auto
next
  case (Cons x xs)
  from Cons.prems(3) obtain y s1 where gx: "g x s = Some (y, s1)"
    by (cases "g x s") auto
  from Cons.prems(1) [OF _ Cons.prems(2) gx] have P1: "P s1"
    by simp
  show ?case
  proof (cases y)
    case (Inl e)
    with gx Cons.prems(3) P1 show ?thesis by auto
  next
    case (Inr v)
    with gx Cons.prems(3) obtain R' where rest: "comprehension_st g xs s1 = Some (R', s')"
      by (cases "comprehension_st g xs s1") (auto split: sum.splits)
    show ?thesis
      using Cons.prems(1) P1 rest by (intro Cons.IH [where s = s1]) auto
  qed
qed

lemma changes_below_refl: "changes_below rank b self self"
  by (simp add: changes_below_def)

lemma changes_below_trans:
  assumes "changes_below rank b s1 s2" "changes_below rank b s2 s3"
  shows "changes_below rank b s1 s3"
proof -
  from assms obtain n1 n2 where
    "fn_log s2 = fn_log s1 @ n1" "\<forall>entry \<in> set n1. rank (fst (fst entry)) < b"
    "fn_log s3 = fn_log s2 @ n2" "\<forall>entry \<in> set n2. rank (fst (fst entry)) < b"
    unfolding changes_below_def by blast
  then have "fn_log s3 = fn_log s1 @ (n1 @ n2) \<and> (\<forall>entry \<in> set (n1 @ n2). rank (fst (fst entry)) < b)"
    by auto
  then have "\<exists>new. fn_log s3 = fn_log s1 @ new \<and> (\<forall>entry \<in> set new. rank (fst (fst entry)) < b)"
    by blast
  moreover have "\<forall>key. memo s1 key \<noteq> None \<longrightarrow> memo s3 key = memo s1 key"
    using assms unfolding changes_below_def by metis
  moreover have "\<forall>key. b \<le> rank (fst key) \<longrightarrow> memo s3 key = memo s1 key"
    using assms unfolding changes_below_def by metis
  ultimately show ?thesis
    unfolding changes_below_def by blast
qed

lemma changes_below_mono:
  "changes_below rank b s1 s2 \<Longrightarrow> b \<le> c \<Longrightarrow> changes_below rank c s1 s2"
  unfolding changes_below_def by (meson le_trans less_le_trans)

text \<open>The store and the log entry that end a call for a key that was not stored.\<close>

lemma changes_below_store:
  assumes "changes_below rank b self mid" "b \<le> rank (fst key)" "memo self key = None"
    and "self' = mid\<lparr>memo := (case res of Inl e \<Rightarrow> memo mid | Inr v \<Rightarrow> (memo mid)(key \<mapsto> v)),
                      fn_log := fn_log mid @ [(key, res)]\<rparr>"
  shows "changes_below rank (Suc (rank (fst key))) self self'"
proof -
  from assms(1) obtain new where new: "fn_log mid = fn_log self @ new"
    "\<forall>entry \<in> set new. rank (fst (fst entry)) < b"
    unfolding changes_below_def by blast
  from assms(1,2,3) have none: "memo mid key = None"
    unfolding changes_below_def by metis
  have log: "fn_log self' = fn_log self @ (new @ [(key, res)])"
    using new assms(4) by simp
  have "\<forall>entry \<in> set (new @ [(key, res)]). rank (fst (fst entry)) < Suc (rank (fst key))"
    using new(2) assms(2) by auto
  with log have 3: "\<exists>new. fn_log self' = fn_log self @ new \<and>
      (\<forall>entry \<in> set new. rank (fst (fst entry)) < Suc (rank (fst key)))"
    by blast
  have 1: "\<forall>k. memo self k \<noteq> None \<longrightarrow> memo self' k = memo self k"
  proof (intro allI impI)
    fix k assume k: "memo self k \<noteq> None"
    with assms(3) have "k \<noteq> key" by auto
    moreover from k assms(1) have "memo mid k = memo self k"
      unfolding changes_below_def by blast
    ultimately show "memo self' k = memo self k"
      using assms(4) by (cases res) auto
  qed
  have 2: "\<forall>k. Suc (rank (fst key)) \<le> rank (fst k) \<longrightarrow> memo self' k = memo self k"
  proof (intro allI impI)
    fix k :: "string \<times> bool" assume k: "Suc (rank (fst key)) \<le> rank (fst k)"
    then have "k \<noteq> key" by auto
    moreover from k assms(1,2) have "memo mid k = memo self k"
      unfolding changes_below_def by (meson Suc_leD le_trans)
    ultimately show "memo self' k = memo self k"
      using assms(4) by (cases res) auto
  qed
  from 1 2 3 show ?thesis
    unfolding changes_below_def by blast
qed

lemma Memoize_tree_call_miss:
  assumes "memo self key = None" "Memoize_tree_call fn tree key self = Some (res, self')"
  shows "\<exists>self1. fn tree key self = Some (res, self1) \<and>
     self' = self1\<lparr>memo := (case res of Inl e \<Rightarrow> memo self1 | Inr v \<Rightarrow> (memo self1)(key \<mapsto> v)),
                  fn_log := fn_log self1 @ [(key, res)]\<rparr>"
  using assms
  by (auto simp: Memoize_tree_call_def split: option.splits sum.splits)

text \<open>The body of the decorated function works on the children only.\<close>

lemma minmax_tt_fn_cases:
  assumes "minmax_tt_fn callee tree (current_id, is_max) self = Some (res, self1)"
  shows "self1 = self \<or>
    (\<exists>current_node R. tree current_id = Some current_node \<and>
        comprehension_st (\<lambda>child. callee tree child (\<not> is_max)) (successors current_node) self
          = Some (R, self1))"
  using assms
  by (auto simp: minmax_tt_fn_def tree_getitem_def tree_children_def
      split: option.splits sum.splits if_splits)

lemma minmax_tt_memo_effect:
  assumes "tree_ranked tree rank"
  shows "minmax_tt_memo n tree current_id is_max self = Some (res, self') \<Longrightarrow>
     (case memo self (current_id, is_max) of
        Some v \<Rightarrow> res = Inr v \<and> self' = self
      | None \<Rightarrow> (\<exists>self1. changes_below rank (rank current_id) self self1 \<and>
           minmax_tt_fn (minmax_tt_memo (n - 1)) tree (current_id, is_max) self = Some (res, self1) \<and>
           self' = self1\<lparr>memo := (case res of Inl e \<Rightarrow> memo self1
                                   | Inr v \<Rightarrow> (memo self1)((current_id, is_max) \<mapsto> v)),
                        fn_log := fn_log self1 @ [((current_id, is_max), res)]\<rparr>))"
proof (induction n arbitrary: current_id is_max self res self')
  case 0
  then show ?case by simp
next
  case (Suc n)
  show ?case
  proof (cases "memo self (current_id, is_max)")
    case (Some v)
    with Suc.prems show ?thesis
      by (simp add: Memoize_tree_call_def)
  next
    case None
    with Suc.prems obtain self1 where
      fn: "minmax_tt_fn (minmax_tt_memo n) tree (current_id, is_max) self = Some (res, self1)"
      and self': "self' = self1\<lparr>memo := (case res of Inl e \<Rightarrow> memo self1
                                   | Inr v \<Rightarrow> (memo self1)((current_id, is_max) \<mapsto> v)),
                        fn_log := fn_log self1 @ [((current_id, is_max), res)]\<rparr>"
      using Memoize_tree_call_miss [of self "(current_id, is_max)" "minmax_tt_fn (minmax_tt_memo n)" tree res self']
      by auto
    have "changes_below rank (rank current_id) self self1"
    proof -
      from minmax_tt_fn_cases [OF fn] show ?thesis
      proof
        assume "self1 = self"
        then show ?thesis by (simp add: changes_below_refl)
      next
        assume "\<exists>current_node R. tree current_id = Some current_node \<and>
          comprehension_st (\<lambda>child. minmax_tt_memo n tree child (\<not> is_max)) (successors current_node) self
            = Some (R, self1)"
        then obtain current_node R where node: "tree current_id = Some current_node"
          and run: "comprehension_st (\<lambda>child. minmax_tt_memo n tree child (\<not> is_max))
              (successors current_node) self = Some (R, self1)"
          by blast
        have step: "changes_below rank (rank current_id) self s'"
          if child: "child \<in> set (successors current_node)"
            and before: "changes_below rank (rank current_id) self s"
            and call: "minmax_tt_memo n tree child (\<not> is_max) s = Some (y, s')" for child s y s'
        proof -
          from assms node child have lt: "rank child < rank current_id"
            unfolding tree_ranked_def by blast
          have "changes_below rank (rank current_id) s s'"
          proof (cases "memo s (child, \<not> is_max)")
            case (Some v)
            with Suc.IH [OF call] show ?thesis
              by (simp add: changes_below_refl)
          next
            case None
            with Suc.IH [OF call] obtain s1 where
              "changes_below rank (rank child) s s1"
              "s' = s1\<lparr>memo := (case y of Inl e \<Rightarrow> memo s1 | Inr v \<Rightarrow> (memo s1)((child, \<not> is_max) \<mapsto> v)),
                        fn_log := fn_log s1 @ [((child, \<not> is_max), y)]\<rparr>"
              by auto
            then have "changes_below rank (Suc (rank (fst (child, \<not> is_max)))) s s'"
              using None by (intro changes_below_store [where b = "rank child" and mid = s1 and res = y]) auto
            then show ?thesis
              using lt by (auto elim: changes_below_mono)
          qed
          with before show ?thesis
            by (rule changes_below_trans)
        qed
        show ?thesis
          using run
          by (rule comprehension_st_invariant [where P = "changes_below rank (rank current_id) self", rotated 2])
             (auto intro: step changes_below_refl)
      qed
    qed
    with None fn self' show ?thesis by auto
  qed
qed

section \<open>Counting the invocations of the wrapped function\<close>

lemma evaluations_append [simp]:
  "evaluations (log @ [(key, res)]) k =
     evaluations log k + (if k = key \<and> \<not> isl res then 1 else 0)"
  by (auto simp: evaluations_def)

lemma invocations_append [simp]:
  "invocations (log @ rest) k = invocations log k + invocations rest k"
  by (simp add: invocations_def)

lemma evaluated_once_store:
  assumes "evaluated_once mid" "memo mid key = None"
  shows "evaluated_once (mid\<lparr>memo := (case res of Inl e \<Rightarrow> memo mid | Inr v \<Rightarrow> (memo mid)(key \<mapsto> v)),
                      fn_log := fn_log mid @ [(key, res)]\<rparr>)"
  using assms unfolding evaluated_once_def
  by (cases res) auto

lemma minmax_tt_memo_evaluated_once:
  assumes "tree_ranked tree rank"
  shows "evaluated_once self \<Longrightarrow> minmax_tt_memo n tree current_id is_max self = Some (res, self') \<Longrightarrow>
     evaluated_once self'"
proof (induction n arbitrary: current_id is_max self res self')
  case 0
  then show ?case by simp
next
  case (Suc n)
  show ?case
  proof (cases "memo self (current_id, is_max)")
    case (Some v)
    with Suc.prems show ?thesis
      by (simp add: Memoize_tree_call_def)
  next
    case None
    with minmax_tt_memo_effect [OF assms Suc.prems(2)] obtain mid where
      below: "changes_below rank (rank current_id) self mid"
      and fn: "minmax_tt_fn (minmax_tt_memo n) tree (current_id, is_max) self = Some (res, mid)"
      and self': "self' = mid\<lparr>memo := (case res of Inl e \<Rightarrow> memo mid
                                   | Inr v \<Rightarrow> (memo mid)((current_id, is_max) \<mapsto> v)),
                        fn_log := fn_log mid @ [((current_id, is_max), res)]\<rparr>"
      by auto
    have once: "evaluated_once mid"
      using minmax_tt_fn_cases [OF fn]
    proof
      assume "mid = self"
      with Suc.prems(1) show ?thesis by simp
    next
      assume "\<exists>current_node R. tree current_id = Some current_node \<and>
          comprehension_st (\<lambda>child. minmax_tt_memo n tree child (\<not> is_max)) (successors current_node) self
            = Some (R, mid)"
      then obtain current_node :: node and R where
        run: "comprehension_st (\<lambda>child. minmax_tt_memo n tree child (\<not> is_max))
              (successors current_node) self = Some (R, mid)"
        by auto
      show ?thesis
        using run
        by (rule comprehension_st_invariant [where P = evaluated_once, rotated 2])
           (auto intro: Suc.IH Suc.prems(1))
    qed
    from below None have "memo mid (current_id, is_max) = None"
      unfolding changes_below_def by (metis fst_conv order_refl)
    with once show ?thesis
      unfolding self' by (rule evaluated_once_store)
  qed
qed

lemma session_evaluated_once:
  assumes "tree_ranked tree rank"
  shows "session tree self \<Longrightarrow> evaluated_once self"
proof (induction rule: session.induct)
  case session_init
  show ?case
    by (simp add: evaluated_once_def Memoize_tree_init_def evaluations_def)
next
  case (session_call self n current_id is_max outcome self')
  then show ?case
    using minmax_tt_memo_evaluated_once [OF assms] by blast
qed

text \<open>Summary of a call, read off the decomposition.\<close>

lemma minmax_tt_memo_miss_summary:
  assumes "tree_ranked tree rank" "memo self (current_id, is_max) = None"
    and "minmax_tt_memo n tree current_id is_max self = Some (res, self')"
  shows "memo self' (current_id, is_max) = (case res of Inl e \<Rightarrow> None | Inr v \<Rightarrow> Some v)"
    and "invocations (fn_log self') (current_id, is_max) = Suc (invocations (fn_log self) (current_id, is_max))"
    and "\<forall>key v. memo self key = Some v \<longrightarrow> memo self' key = Some v"
    and "\<forall>key. memo self' key \<noteq> memo self key \<longrightarrow>
            key = (current_id, is_max) \<or> rank (fst key) < rank current_id"
proof -
  from minmax_tt_memo_effect [OF assms(1,3)] assms(2) obtain mid where
    below: "changes_below rank (rank current_id) self mid"
    and self': "self' = mid\<lparr>memo := (case res of Inl e \<Rightarrow> memo mid
                                   | Inr v \<Rightarrow> (memo mid)((current_id, is_max) \<mapsto> v)),
                        fn_log := fn_log mid @ [((current_id, is_max), res)]\<rparr>"
    by auto
  from below assms(2) have none: "memo mid (current_id, is_max) = None"
    unfolding changes_below_def by (metis fst_conv order_refl)
  from none self' show "memo self' (current_id, is_max) = (case res of Inl e \<Rightarrow> None | Inr v \<Rightarrow> Some v)"
    by (cases res) auto
  from below obtain new where new: "fn_log mid = fn_log self @ new"
    "\<forall>entry \<in> set new. rank (fst (fst entry)) < rank current_id"
    unfolding changes_below_def by blast
  from new(2) have "filter (\<lambda>entry. fst entry = (current_id, is_max)) new = []"
    by (auto simp: filter_empty_conv)
  then have "invocations new (current_id, is_max) = 0"
    by (simp add: invocations_def)
  with new(1) self' show "invocations (fn_log self') (current_id, is_max)
      = Suc (invocations (fn_log self) (current_id, is_max))"
    by (simp add: invocations_def)
  show "\<forall>key v. memo self key = Some v \<longrightarrow> memo self' key = Some v"
  proof (intro allI impI)
    fix key v assume k: "memo self key = Some v"
    with assms(2) have "key \<noteq> (current_id, is_max)" by auto
    moreover from k below have "memo mid key = Some v"
      unfolding changes_below_def by (metis option.distinct(1))
    ultimately show "memo self' key = Some v"
      using self' by (cases res) auto
  qed
  show "\<forall>key. memo self' key \<noteq> memo self key \<longrightarrow>
            key = (current_id, is_max) \<or> rank (fst key) < rank current_id"
  proof (intro allI impI)
    fix key assume k: "memo self' key \<noteq> memo self key"
    show "key = (current_id, is_max) \<or> rank (fst key) < rank current_id"
    proof (rule ccontr)
      assume "\<not> ?thesis"
      then have ne: "key \<noteq> (current_id, is_max)" and ge: "rank current_id \<le> rank (fst key)"
        by auto
      from ge below have "memo mid key = memo self key"
        unfolding changes_below_def by blast
      with ne self' have "memo self' key = memo self key"
        by (cases res) auto
      with k show False by simp
    qed
  qed
qed

section \<open>Example runs\<close>

lemma pair_tree_ranked: "tree_ranked pair_tree pair_rank"
  unfolding tree_ranked_def pair_tree_def pair_rank_def
  by (auto split: if_splits)

lemmas eval_defs = Memoize_tree_call_def minmax_tt_fn_def tree_getitem_def tree_children_def
  Memoize_tree_init_def

lemma pair_call_a:
  "minmax_tt_memo (Suc (Suc 0)) pair_tree ''a'' False Memoize_tree_init = Some (Inr 1, pair_cache_a)"
  by (simp add: pair_tree_def pair_cache_a_def eval_defs)

lemma pair_call_root:
  "minmax_tt_memo (Suc (Suc (Suc 0))) pair_tree ''root'' True pair_cache_a = Some (Inr 1, pair_cache_root)"
  by (simp add: pair_tree_def pair_cache_a_def pair_cache_root_def eval_defs)

lemma broken_tree_ranked: "tree_ranked broken_tree broken_rank"
  unfolding tree_ranked_def broken_tree_def broken_rank_def
  by (auto split: if_splits)

lemma broken_call_a:
  "minmax_tt_memo (Suc (Suc 0)) broken_tree ''a'' True Memoize_tree_init =
     Some (Inl ValueError, broken_cache_once)"
  by (simp add: broken_tree_def broken_cache_once_def eval_defs)

lemma broken_call_a_again:
  "minmax_tt_memo (Suc (Suc 0)) broken_tree ''a'' True broken_cache_once =
     Some (Inl ValueError, broken_cache_twice)"
  by (simp add: broken_tree_def broken_cache_once_def broken_cache_twice_def eval_defs)

section \<open>The scores that the move selector uses\<close>

lemma np_where_eq_map:
  "np_where_eq (map score cs) best = filter (\<lambda>i. score (cs ! i) = best) [0..<length cs]"
  unfolding np_where_eq_def
  by (rule filter_cong) auto

lemma session_comprehension_st:
  assumes "session tree self"
    and "\<forall>child \<in> set cs. minmax_tt n tree child is_max = Some (Inr (score child))"
  shows "\<exists>self'. comprehension_st (\<lambda>child. minmax_tt_memo n tree child is_max) cs self
            = Some (Inr (map score cs), self') \<and> session tree self'"
proof -
  have plain: "comprehension (\<lambda>child. minmax_tt n tree child is_max) cs = Some (Inr (map score cs))"
    using assms(2) by (intro comprehension_all_values) simp
  have step: "\<exists>s'. minmax_tt_memo n tree x is_max s = Some (y, s') \<and> session tree s'"
    if "session tree s" "minmax_tt n tree x is_max = Some y" for x s y
  proof -
    from minmax_tt_memo_transparent [OF session_sound [OF that(1)] that(2)]
    obtain s' where "minmax_tt_memo n tree x is_max s = Some (y, s')"
      by blast
    with that(1) show ?thesis
      by (blast intro: session_call)
  qed
  show ?thesis
    using assms(1) plain
    by (intro comprehension_st_transfer
          [where f = "\<lambda>child. minmax_tt n tree child is_max" and P = "session tree"])
       (auto intro: step)
qed

lemma row_tree_root:
  "row_tree ''root'' =
     Some \<lparr>is_endstate = False, get_value = 0, successors = [''a'', ''b'', ''c'']\<rparr>"
  by (simp add: row_tree_def)

lemma row_tree_a: "row_tree ''a'' = Some \<lparr>is_endstate = True, get_value = 1, successors = []\<rparr>"
  by (simp add: row_tree_def)

lemma row_tree_children_scores:
  "\<forall>child \<in> set [''a'', ''b'', ''c''].
      minmax_tt (Suc 0) row_tree child (\<not> is_max) = Some (Inr (row_score child))"
  by (simp add: row_tree_def row_score_def tree_getitem_def)

section \<open>The candidates of the warm-up\<close>

lemma set_without_nth:
  assumes "i < length xs" "distinct xs"
  shows "set (take i xs @ drop (Suc i) xs) = set xs - {xs ! i}"
    and "distinct (take i xs @ drop (Suc i) xs)"
proof -
  from assms(1) have split: "xs = take i xs @ xs ! i # drop (Suc i) xs"
    by (rule id_take_nth_drop)
  with assms(2) have d: "distinct (take i xs @ xs ! i # drop (Suc i) xs)"
    by simp
  then show "distinct (take i xs @ drop (Suc i) xs)"
    by auto
  from d have "xs ! i \<notin> set (take i xs @ drop (Suc i) xs)"
    by auto
  moreover have "set xs = insert (xs ! i) (set (take i xs @ drop (Suc i) xs))"
    by (subst split) auto
  ultimately show "set (take i xs @ drop (Suc i) xs) = set xs - {xs ! i}"
    by auto
qed

lemma set_permutations:
  "distinct xs \<Longrightarrow>
   set (permutations xs r) = {ys. length ys = r \<and> distinct ys \<and> set ys \<subseteq> set xs}"
proof (induction r arbitrary: xs)
  case 0
  show ?case by auto
next
  case (Suc r)
  have rest: "set (permutations (take i xs @ drop (Suc i) xs) r) =
      {ys. length ys = r \<and> distinct ys \<and> set ys \<subseteq> set xs - {xs ! i}}" if "i < length xs" for i
    using set_without_nth [OF that Suc.prems] Suc.IH [of "take i xs @ drop (Suc i) xs"] by simp
  show ?case
  proof (intro set_eqI iffI)
    fix zs assume "zs \<in> set (permutations xs (Suc r))"
    then obtain i ys where i: "i < length xs" and zs: "zs = xs ! i # ys"
      and ys: "ys \<in> set (permutations (take i xs @ drop (Suc i) xs) r)"
      by auto
    from ys rest [OF i] have "length ys = r" "distinct ys" "set ys \<subseteq> set xs - {xs ! i}"
      by auto
    with i zs show "zs \<in> {ys. length ys = Suc r \<and> distinct ys \<and> set ys \<subseteq> set xs}"
      by auto
  next
    fix zs assume "zs \<in> {ys. length ys = Suc r \<and> distinct ys \<and> set ys \<subseteq> set xs}"
    then obtain z ys where zs: "zs = z # ys" and len: "length ys = r" and d: "distinct (z # ys)"
      and sub: "set (z # ys) \<subseteq> set xs"
      by (cases zs) auto
    from sub obtain i where i: "i < length xs" "xs ! i = z"
      by (auto simp: in_set_conv_nth)
    from d sub i have "set ys \<subseteq> set xs - {xs ! i}"
      by auto
    with len d rest [OF i(1)] have "ys \<in> set (permutations (take i xs @ drop (Suc i) xs) r)"
      by simp
    with i zs show "zs \<in> set (permutations xs (Suc r))"
      by auto
  qed
qed

lemma length_permutations:
  "length (permutations xs r) = (\<Prod>j<r. length xs - j)"
proof (induction r arbitrary: xs)
  case 0
  show ?case by simp
next
  case (Suc r)
  have "length (permutations xs (Suc r)) =
      sum_list (map (\<lambda>i. length (permutations (take i xs @ drop (Suc i) xs) r)) [0..<length xs])"
    by (simp add: length_concat comp_def)
  also have "\<dots> = sum_list (map (\<lambda>i. \<Prod>j<r. (length xs - 1) - j) [0..<length xs])"
  proof (rule arg_cong [where f = sum_list], rule map_cong [OF refl])
    fix i assume "i \<in> set [0..<length xs]"
    then have "length (take i xs @ drop (Suc i) xs) = length xs - 1"
      by auto
    with Suc.IH [of "take i xs @ drop (Suc i) xs"]
    show "length (permutations (take i xs @ drop (Suc i) xs) r) = (\<Prod>j<r. (length xs - 1) - j)"
      by simp
  qed
  also have "\<dots> = length xs * (\<Prod>j<r. (length xs - 1) - j)"
    by (simp add: sum_list_replicate map_replicate_const)
  also have "\<dots> = (\<Prod>j<Suc r. length xs - j)"
    by (subst prod.lessThan_Suc_shift) simp
  finally show ?case .
qed

lemma singletons_of_concat:
  "set ys \<subseteq> (\<lambda>c. [c]) ` C \<Longrightarrow> ys = map (\<lambda>c. [c]) (concat ys) \<and> set (concat ys) \<subseteq> C"
  by (induction ys) auto

lemma alphabet_singletons:
  "[''a'', ''b'', ''c'', ''d'', ''e'', ''f'', ''g'', ''h'', ''i''] = map (\<lambda>c. [c]) ''abcdefghi''"
  by simp

lemma set_all_states:
  "set all_states =
     {s. 1 \<le> length s \<and> length s \<le> 8 \<and> distinct s \<and> set s \<subseteq> set ''abcdefghi''}"
proof -
  let ?alphabet = "map (\<lambda>c. [c]) ''abcdefghi''"
  have d: "distinct ?alphabet"
    by simp
  have inj: "inj (\<lambda>c::char. [c])"
    by (simp add: inj_def)
  have all: "set all_states =
      (\<Union>r\<in>{1..<9}. concat ` {ys. length ys = r \<and> distinct ys \<and> set ys \<subseteq> set ?alphabet})"
    unfolding all_states_def alphabet_singletons
    by (simp only: set_concat set_map set_permutations [OF d] set_upt image_image)
  show ?thesis
  proof (intro set_eqI iffI)
    fix s assume "s \<in> set all_states"
    with all obtain r ys where r: "1 \<le> r" "r < 9" and s: "s = concat ys"
      and ys: "length ys = r" "distinct ys" "set ys \<subseteq> set ?alphabet"
      by auto
    from ys(3) have "set ys \<subseteq> (\<lambda>c. [c]) ` set ''abcdefghi''"
      by simp
    from singletons_of_concat [OF this]
    have m: "ys = map (\<lambda>c. [c]) (concat ys)" and sub: "set (concat ys) \<subseteq> set ''abcdefghi''"
      by simp_all
    from m have "length ys = length (concat ys)"
      by (metis length_map)
    moreover from m ys(2) have "distinct (concat ys)"
      by (metis distinct_map)
    ultimately show "s \<in> {s. 1 \<le> length s \<and> length s \<le> 8 \<and> distinct s \<and> set s \<subseteq> set ''abcdefghi''}"
      using r ys(1) s sub by simp
  next
    fix s assume "s \<in> {s. 1 \<le> length s \<and> length s \<le> 8 \<and> distinct s \<and> set s \<subseteq> set ''abcdefghi''}"
    then have s: "1 \<le> length s" "length s \<le> 8" "distinct s" "set s \<subseteq> set ''abcdefghi''"
      by simp_all
    let ?ys = "map (\<lambda>c. [c]) s"
    have c: "s = concat ?ys"
      by (induction s) simp_all
    have "length ?ys = length s" "distinct ?ys"
      using s(3) by (simp_all add: distinct_map inj_on_def)
    moreover have "set ?ys \<subseteq> set ?alphabet"
      using s(4) by (simp only: set_map) (rule image_mono)
    ultimately have mem: "?ys \<in> {ys. length ys = length s \<and> distinct ys \<and> set ys \<subseteq> set ?alphabet}"
      by simp
    from c mem have img: "s \<in> concat ` {ys. length ys = length s \<and> distinct ys \<and> set ys \<subseteq> set ?alphabet}"
      by (rule image_eqI)
    from s(1,2) have "length s \<in> {1..<9}"
      by simp
    then have "s \<in> (\<Union>r\<in>{1..<9}.
        concat ` {ys. length ys = r \<and> distinct ys \<and> set ys \<subseteq> set ?alphabet})"
      using img
      by (rule UN_I [where B = "\<lambda>r. concat ` {ys. length ys = r \<and> distinct ys \<and> set ys \<subseteq> set ?alphabet}"])
    then show "s \<in> set all_states"
      by (simp only: all)
  qed
qed

lemma length_all_states: "length all_states = 623529"
proof -
  have nine: "length [''a'', ''b'', ''c'', ''d'', ''e'', ''f'', ''g'', ''h'', ''i''] = 9"
    by simp
  have "length all_states = sum_list (map (\<lambda>r. \<Prod>j<r. 9 - j) [1..<9])"
    unfolding all_states_def
    by (simp only: length_concat map_map comp_def length_map length_permutations nine)
  also have "\<dots> = 623529"
    by (simp add: upt_conv_Cons lessThan_nat_numeral lessThan_Suc)
  finally show ?thesis .
qed

section \<open>What the move selector changes, and that it returns\<close>

lemma minmax_tt_memo_changes_below:
  assumes "tree_ranked tree rank"
    and "minmax_tt_memo n tree current_id is_max self = Some (res, self')"
  shows "changes_below rank (Suc (rank current_id)) self self'"
proof (cases "memo self (current_id, is_max)")
  case (Some v)
  with minmax_tt_memo_effect [OF assms] show ?thesis
    by (simp add: changes_below_refl)
next
  case None
  with minmax_tt_memo_effect [OF assms] obtain mid where
    "changes_below rank (rank current_id) self mid"
    "self' = mid\<lparr>memo := (case res of Inl e \<Rightarrow> memo mid
                                   | Inr v \<Rightarrow> (memo mid)((current_id, is_max) \<mapsto> v)),
                        fn_log := fn_log mid @ [((current_id, is_max), res)]\<rparr>"
    by auto
  then have "changes_below rank (Suc (rank (fst (current_id, is_max)))) self self'"
    using None
    by (intro changes_below_store [where b = "rank current_id" and mid = mid and res = res]) auto
  then show ?thesis by simp
qed

lemma minmax_tt_memo_stores:
  assumes "tree_ranked tree rank"
    and "minmax_tt_memo n tree current_id is_max self = Some (Inr v, self')"
  shows "memo self' (current_id, is_max) = Some v"
proof (cases "memo self (current_id, is_max)")
  case None
  from minmax_tt_memo_miss_summary(1) [OF assms(1) None assms(2)] show ?thesis by simp
next
  case (Some w)
  with minmax_tt_memo_effect [OF assms] show ?thesis by auto
qed

lemma changes_below_keeps:
  "changes_below rank b self self' \<Longrightarrow> memo self key = Some v \<Longrightarrow> memo self' key = Some v"
  unfolding changes_below_def by (metis option.distinct(1))

lemma determine_move_changes_below:
  assumes "tree_ranked tree rank"
    and "determine_move n tree current_id is_max random np_wide self = Some (out, self')"
  shows "changes_below rank (rank current_id) self self'"
proof (cases "tree current_id")
  case None
  with assms(2) show ?thesis
    by (simp add: determine_move_def tree_children_def Let_def changes_below_refl)
next
  case (Some current_node)
  have step: "changes_below rank (rank current_id) self s'"
    if child: "child \<in> set (successors current_node)"
      and before: "changes_below rank (rank current_id) self s"
      and call: "minmax_tt_memo n tree child (\<not> is_max) s = Some (y, s')" for child s y s'
  proof -
    from assms(1) Some child have "rank child < rank current_id"
      unfolding tree_ranked_def by blast
    with minmax_tt_memo_changes_below [OF assms(1) call]
    have "changes_below rank (rank current_id) s s'"
      by (auto elim: changes_below_mono)
    with before show ?thesis
      by (rule changes_below_trans)
  qed
  show ?thesis
  proof (cases "comprehension_st (\<lambda>child. minmax_tt_memo n tree child (\<not> is_max))
                  (successors current_node) self")
    case None
    with assms(2) Some show ?thesis
      by (auto simp: determine_move_def tree_children_def Let_def changes_below_refl
          split: option.splits sum.splits)
  next
    case run: (Some result)
    obtain R mid where result: "result = (R, mid)"
      by (cases result)
    have mid: "changes_below rank (rank current_id) self mid"
      using run [unfolded result]
      by (rule comprehension_st_invariant
            [where P = "changes_below rank (rank current_id) self", rotated 2])
         (auto intro: step changes_below_refl)
    from assms(2) Some run result have "self' = self \<or> self' = mid"
      by (auto simp: determine_move_def tree_children_def Let_def split: option.splits sum.splits)
    with mid show ?thesis
      by (auto simp: changes_below_refl)
  qed
qed

lemma comprehension_returns:
  "(\<And>x. x \<in> set xs \<Longrightarrow> \<exists>y. f x = Some y) \<Longrightarrow> \<exists>R. comprehension f xs = Some R"
proof (induction xs)
  case Nil
  show ?case by simp
next
  case (Cons x xs)
  then obtain y R where "f x = Some y" "comprehension f xs = Some R"
    by (meson list.set_intros)
  then show ?case
    by (cases y; cases R) auto
qed

lemma comprehension_st_returns:
  "(\<And>x s. x \<in> set xs \<Longrightarrow> \<exists>y s'. g x s = Some (y, s')) \<Longrightarrow>
   \<exists>R s'. comprehension_st g xs s = Some (R, s')"
proof (induction xs arbitrary: s)
  case Nil
  show ?case by simp
next
  case (Cons x xs)
  from Cons.prems obtain y s1 where gx: "g x s = Some (y, s1)"
    by (meson list.set_intros(1))
  from Cons.IH [of s1] Cons.prems obtain R s2 where rest: "comprehension_st g xs s1 = Some (R, s2)"
    by (meson list.set_intros(2))
  from gx rest show ?case
    by (cases y; cases R) auto
qed

lemma minmax_tt_memo_returns:
  assumes "tree_ranked tree rank"
  shows "rank current_id < n \<Longrightarrow> \<exists>res self'. minmax_tt_memo n tree current_id is_max self = Some (res, self')"
proof (induction n arbitrary: current_id is_max self)
  case 0
  then show ?case by simp
next
  case (Suc n)
  have children: "\<exists>R s'. comprehension_st (\<lambda>child. minmax_tt_memo n tree child (\<not> is_max))
        (successors current_node) self = Some (R, s')"
    if "tree current_id = Some current_node" for current_node
  proof (rule comprehension_st_returns)
    fix child s assume "child \<in> set (successors current_node)"
    with assms that have "rank child < rank current_id"
      unfolding tree_ranked_def by blast
    with Suc.prems have "rank child < n"
      by simp
    then show "\<exists>y s'. minmax_tt_memo n tree child (\<not> is_max) s = Some (y, s')"
      by (rule Suc.IH)
  qed
  have "\<exists>res mid. minmax_tt_fn (minmax_tt_memo n) tree (current_id, is_max) self = Some (res, mid)"
  proof (cases "tree current_id")
    case None
    then show ?thesis
      by (simp add: minmax_tt_fn_def tree_getitem_def)
  next
    case (Some current_node)
    from children [OF Some] obtain R s' where
      "comprehension_st (\<lambda>child. minmax_tt_memo n tree child (\<not> is_max))
        (successors current_node) self = Some (R, s')"
      by blast
    with Some show ?thesis
      by (cases R) (auto simp: minmax_tt_fn_def tree_getitem_def tree_children_def)
  qed
  then obtain res mid where
    "minmax_tt_fn (minmax_tt_memo n) tree (current_id, is_max) self = Some (res, mid)"
    by blast
  then show ?case
    by (cases res; cases "memo self (current_id, is_max)") (auto simp: Memoize_tree_call_def)
qed

lemma determine_move_returns:
  assumes "tree_ranked tree rank" and "rank current_id \<le> n"
  shows "\<exists>out self'. determine_move n tree current_id is_max random np_wide self = Some (out, self')"
proof (cases "tree current_id")
  case None
  then show ?thesis
    by (simp add: determine_move_def tree_children_def Let_def)
next
  case (Some current_node)
  have "\<exists>R. comprehension (\<lambda>child. Some (py_last child)) (successors current_node) = Some R"
    by (rule comprehension_returns) simp
  then obtain M where moves: "comprehension (\<lambda>child. Some (py_last child)) (successors current_node) = Some M"
    by blast
  have "\<exists>R s'. comprehension_st (\<lambda>child. minmax_tt_memo n tree child (\<not> is_max))
        (successors current_node) self = Some (R, s')"
  proof (rule comprehension_st_returns)
    fix child s assume "child \<in> set (successors current_node)"
    with assms(1) Some have "rank child < rank current_id"
      unfolding tree_ranked_def by blast
    with assms(2) have "rank child < n"
      by simp
    then show "\<exists>y s'. minmax_tt_memo n tree child (\<not> is_max) s = Some (y, s')"
      by (rule minmax_tt_memo_returns [OF assms(1)])
  qed
  then obtain R s' where run: "comprehension_st (\<lambda>child. minmax_tt_memo n tree child (\<not> is_max))
        (successors current_node) self = Some (R, s')"
    by blast
  from Some moves run show ?thesis
    by (cases M; cases R)
       (auto simp: determine_move_def tree_children_def Let_def split: sum.splits option.splits)
qed

section \<open>The warm-up driver runs to its end\<close>

lemma for_loop_try:
  assumes "\<And>x s. x \<in> set xs \<Longrightarrow> \<exists>out s'. f x s = Some (out, s')"
    and "\<And>x s out s'. x \<in> set xs \<Longrightarrow> P s \<Longrightarrow> f x s = Some (out, s') \<Longrightarrow> P s'"
    and "P s"
  shows "\<exists>s'. for_loop xs (\<lambda>x s. try_except_pass (f x s)) s = Some (Inr (), s') \<and> P s'"
  using assms
proof (induction xs arbitrary: s)
  case Nil
  then show ?case by simp
next
  case (Cons x xs)
  from Cons.prems(1) obtain out s1 where fx: "f x s = Some (out, s1)"
    by (meson list.set_intros(1))
  with Cons.prems(2,3) have P1: "P s1"
    by (meson list.set_intros(1))
  from fx have body: "try_except_pass (f x s) = Some (Inr (), s1)"
    by (cases out) (simp_all add: try_except_pass_def)
  have "\<exists>s'. for_loop xs (\<lambda>x s. try_except_pass (f x s)) s1 = Some (Inr (), s') \<and> P s'"
    using Cons.prems(1,2) P1 by (intro Cons.IH) (meson list.set_intros(2))+
  with body show ?case by simp
qed

lemma for_loop_try_never_raises:
  "for_loop xs (\<lambda>x s. try_except_pass (f x s)) s \<noteq> Some (Inl e, s')"
proof (induction xs arbitrary: s)
  case Nil
  show ?case by simp
next
  case (Cons x xs)
  show ?case
  proof (cases "f x s")
    case None
    then show ?thesis by (simp add: try_except_pass_def)
  next
    case (Some r)
    obtain out s1 where "r = (out, s1)" by (cases r)
    with Some have "try_except_pass (f x s) = Some (Inr (), s1)"
      by (cases out) (simp_all add: try_except_pass_def)
    with Cons.IH [of s1] show ?thesis by simp
  qed
qed

lemma warmup_returns:
  assumes "tree_ranked tree rank" and "\<forall>nid. rank nid \<le> n"
    and "\<And>state s out s'. state \<in> set all_states \<Longrightarrow> P s \<Longrightarrow>
           determine_move n tree state False (map_option (\<lambda>draw. draw state) random) np_wide s = Some (out, s') \<Longrightarrow> P s'"
    and "P self"
  shows "\<exists>final. warmup n tree random np_wide self = Some (Inr (), final) \<and> P final"
  unfolding warmup_def
proof (rule for_loop_try [where P = P and f = "\<lambda>state. determine_move n tree state False (map_option (\<lambda>draw. draw state) random) np_wide"])
  fix x s
  from assms(2) have "rank x \<le> n" by simp
  with assms(1) show "\<exists>out s'. determine_move n tree x False (map_option (\<lambda>draw. draw x) random) np_wide s = Some (out, s')"
    by (rule determine_move_returns)
next
  fix x s out s'
  assume "x \<in> set all_states" "P s" "determine_move n tree x False (map_option (\<lambda>draw. draw x) random) np_wide s = Some (out, s')"
  then show "P s'" by (rule assms(3))
next
  show "P self" by (rule assms(4))
qed

lemma a_in_all_states: "''a'' \<in> set all_states"
  by (simp add: set_all_states)

lemma broken_rank_le: "\<forall>nid. broken_rank nid \<le> Suc (Suc (Suc 0))"
  by (simp add: broken_rank_def)

lemma broken_determine_move_a:
  "map_option fst (determine_move (Suc (Suc (Suc 0))) broken_tree ''a'' False random np_wide Memoize_tree_init)
     = Some (Inl ValueError)"
  by (simp add: determine_move_def broken_tree_def eval_defs py_last_def)

section \<open>What the warm-up driver leaves in the cache\<close>

lemma for_loop_append:
  "for_loop (xs @ ys) body s =
     (case for_loop xs body s of
        None \<Rightarrow> None
      | Some (Inl e, s') \<Rightarrow> Some (Inl e, s')
      | Some (Inr u, s') \<Rightarrow> for_loop ys body s')"
  by (induction xs arbitrary: s) (auto split: option.splits sum.splits)

lemma comprehension_st_all_values:
  assumes "\<And>x s. x \<in> set xs \<Longrightarrow> \<exists>v s'. g x s = Some (Inr v, s')"
    and "\<And>x s v s'. x \<in> set xs \<Longrightarrow> g x s = Some (Inr v, s') \<Longrightarrow> Q x s'"
    and "\<And>x y s out s'. y \<in> set xs \<Longrightarrow> Q x s \<Longrightarrow> g y s = Some (out, s') \<Longrightarrow> Q x s'"
    and "\<forall>x \<in> A. Q x s"
  shows "\<exists>vs s'. comprehension_st g xs s = Some (Inr vs, s') \<and> length vs = length xs \<and>
            (\<forall>x \<in> A \<union> set xs. Q x s')"
  using assms
proof (induction xs arbitrary: s A)
  case Nil
  then show ?case by simp
next
  case (Cons x xs)
  from Cons.prems(1) [of x s] obtain v s1 where gx: "g x s = Some (Inr v, s1)"
    by auto
  from Cons.prems(2) [OF _ gx] have Qx: "Q x s1"
    by simp
  from Cons.prems(3) [OF _ _ gx] Cons.prems(4) have QA: "\<forall>a \<in> A. Q a s1"
    by simp
  from Qx QA have all: "\<forall>a \<in> insert x A. Q a s1"
    by simp
  have "\<exists>vs s'. comprehension_st g xs s1 = Some (Inr vs, s') \<and> length vs = length xs \<and>
            (\<forall>a \<in> insert x A \<union> set xs. Q a s')"
  proof (rule Cons.IH [OF _ _ _ all])
    fix y s assume "y \<in> set xs"
    then show "\<exists>v s'. g y s = Some (Inr v, s')"
      using Cons.prems(1) by simp
  next
    fix y s v s' assume "y \<in> set xs" "g y s = Some (Inr v, s')"
    then show "Q y s'"
      using Cons.prems(2) by simp
  next
    fix a y s out s' assume "y \<in> set xs" "Q a s" "g y s = Some (out, s')"
    then show "Q a s'"
      using Cons.prems(3) [of y a s out s'] by simp
  qed
  then obtain vs s' where rest: "comprehension_st g xs s1 = Some (Inr vs, s')"
    and len: "length vs = length xs" and Q: "\<forall>a \<in> insert x A \<union> set xs. Q a s'"
    by blast
  from gx rest have "comprehension_st g (x # xs) s = Some (Inr (v # vs), s')"
    by simp
  moreover from len have "length (v # vs) = length (x # xs)"
    by simp
  moreover from Q have "\<forall>a \<in> A \<union> set (x # xs). Q a s'"
    by simp
  ultimately show ?case
    by blast
qed

lemma minmax_tt_memo_keeps:
  assumes "tree_ranked tree rank"
    and "minmax_tt_memo n tree current_id is_max self = Some (res, self')"
    and "memo self key = Some v"
  shows "memo self' key = Some v"
  using minmax_tt_memo_changes_below [OF assms(1,2)] assms(3) by (rule changes_below_keeps)

lemma stored_children:
  assumes "tree_ranked tree rank"
    and "\<And>child s. child \<in> set cs \<Longrightarrow> \<exists>v s'. minmax_tt_memo n tree child is_max s = Some (Inr v, s')"
  shows "\<exists>vs s'. comprehension_st (\<lambda>child. minmax_tt_memo n tree child is_max) cs self
              = Some (Inr vs, s') \<and> length vs = length cs \<and>
            (\<forall>child \<in> set cs. \<exists>v. memo s' (child, is_max) = Some v)"
proof -
  have "\<exists>vs s'. comprehension_st (\<lambda>child. minmax_tt_memo n tree child is_max) cs self
              = Some (Inr vs, s') \<and> length vs = length cs \<and>
            (\<forall>child \<in> {} \<union> set cs. \<exists>v. memo s' (child, is_max) = Some v)"
  proof (rule comprehension_st_all_values
      [where Q = "\<lambda>child s. \<exists>v. memo s (child, is_max) = Some v"])
    fix x s assume "x \<in> set cs"
    then show "\<exists>v s'. minmax_tt_memo n tree x is_max s = Some (Inr v, s')"
      by (rule assms(2))
  next
    fix x s v s' assume "minmax_tt_memo n tree x is_max s = Some (Inr v, s')"
    with assms(1) have "memo s' (x, is_max) = Some v"
      by (rule minmax_tt_memo_stores)
    then show "\<exists>v. memo s' (x, is_max) = Some v"
      by blast
  next
    fix x y s out s'
    assume "\<exists>v. memo s (x, is_max) = Some v" "minmax_tt_memo n tree y is_max s = Some (out, s')"
    then show "\<exists>v. memo s' (x, is_max) = Some v"
      using minmax_tt_memo_keeps [OF assms(1)] by blast
  next
    show "\<forall>x \<in> {}. \<exists>v. memo self (x, is_max) = Some v"
      by simp
  qed
  then show ?thesis by simp
qed

lemma minmax_tt_memo_value:
  assumes "tree_well_formed tree rank"
  shows "tree current_id \<noteq> None \<Longrightarrow> rank current_id < n \<Longrightarrow>
     \<exists>v self'. minmax_tt_memo n tree current_id is_max self = Some (Inr v, self')"
proof (induction n arbitrary: current_id is_max self)
  case 0
  then show ?case by simp
next
  case (Suc n)
  from assms have ranked: "tree_ranked tree rank"
    by (simp add: tree_well_formed_def)
  from Suc.prems(1) obtain current_node where node: "tree current_id = Some current_node"
    by blast
  show ?case
  proof (cases "memo self (current_id, is_max)")
    case (Some v)
    then show ?thesis
      by (simp add: Memoize_tree_call_def)
  next
    case None
    have "\<exists>v mid. minmax_tt_fn (minmax_tt_memo n) tree (current_id, is_max) self = Some (Inr v, mid)"
    proof (cases "is_endstate current_node")
      case True
      with node show ?thesis
        by (simp add: minmax_tt_fn_def tree_getitem_def)
    next
      case False
      with assms node have ne: "successors current_node \<noteq> []"
        unfolding tree_well_formed_def by blast
      have "\<exists>vs s'. comprehension_st (\<lambda>child. minmax_tt_memo n tree child (\<not> is_max))
              (successors current_node) self = Some (Inr vs, s') \<and>
            length vs = length (successors current_node) \<and>
            (\<forall>child \<in> set (successors current_node). \<exists>v. memo s' (child, \<not> is_max) = Some v)"
      proof (rule stored_children [OF ranked])
        fix child s assume child: "child \<in> set (successors current_node)"
        with assms node have present: "tree child \<noteq> None"
          unfolding tree_well_formed_def by blast
        from ranked node child have "rank child < rank current_id"
          unfolding tree_ranked_def by blast
        with Suc.prems(2) have "rank child < n"
          by simp
        with present show "\<exists>v s'. minmax_tt_memo n tree child (\<not> is_max) s = Some (Inr v, s')"
          by (rule Suc.IH)
      qed
      then obtain vs s' where run: "comprehension_st (\<lambda>child. minmax_tt_memo n tree child (\<not> is_max))
              (successors current_node) self = Some (Inr vs, s')"
        and len: "length vs = length (successors current_node)"
        by blast
      from len ne obtain w ws where "vs = w # ws"
        by (cases vs) auto
      with node False run show ?thesis
        by (simp add: minmax_tt_fn_def tree_getitem_def tree_children_def)
    qed
    with None show ?thesis
      by (auto simp: Memoize_tree_call_def)
  qed
qed

lemma determine_move_caches_children:
  assumes "tree_well_formed tree rank" and "rank current_id \<le> n"
    and "tree current_id = Some current_node"
  shows "\<exists>out self'. determine_move n tree current_id is_max random np_wide self = Some (out, self') \<and>
            (\<forall>child \<in> set (successors current_node). \<exists>v. memo self' (child, \<not> is_max) = Some v)"
proof -
  from assms(1) have ranked: "tree_ranked tree rank"
    by (simp add: tree_well_formed_def)
  have moves: "comprehension (\<lambda>child. Some (py_last child)) (successors current_node)
      = Some (Inr (map (\<lambda>child. [last child]) (successors current_node)))"
  proof (rule comprehension_all_values)
    fix x assume "x \<in> set (successors current_node)"
    with assms(1,3) have "x \<noteq> []"
      unfolding tree_well_formed_def by blast
    then show "Some (py_last x) = Some (Inr [last x])"
      by (simp add: py_last_def)
  qed
  have "\<exists>vs s'. comprehension_st (\<lambda>child. minmax_tt_memo n tree child (\<not> is_max))
              (successors current_node) self = Some (Inr vs, s') \<and>
            length vs = length (successors current_node) \<and>
            (\<forall>child \<in> set (successors current_node). \<exists>v. memo s' (child, \<not> is_max) = Some v)"
  proof (rule stored_children [OF ranked])
    fix child s assume child: "child \<in> set (successors current_node)"
    with assms(1,3) have present: "tree child \<noteq> None"
      unfolding tree_well_formed_def by blast
    from ranked assms(3) child have "rank child < rank current_id"
      unfolding tree_ranked_def by blast
    with assms(2) have "rank child < n"
      by simp
    with present show "\<exists>v s'. minmax_tt_memo n tree child (\<not> is_max) s = Some (Inr v, s')"
      by (rule minmax_tt_memo_value [OF assms(1)])
  qed
  then obtain vs s' where run: "comprehension_st (\<lambda>child. minmax_tt_memo n tree child (\<not> is_max))
              (successors current_node) self = Some (Inr vs, s')"
    and stored: "\<forall>child \<in> set (successors current_node). \<exists>v. memo s' (child, \<not> is_max) = Some v"
    by blast
  from assms(3) moves run have "\<exists>out. determine_move n tree current_id is_max random np_wide self = Some (out, s')"
    by (auto simp: determine_move_def tree_children_def Let_def split: sum.splits option.splits)
  with stored show ?thesis
    by blast
qed

lemma pair_rank_le: "\<forall>nid. pair_rank nid \<le> Suc (Suc (Suc 0))"
  by (simp add: pair_rank_def)

lemma candidate_pair_rank: "state \<in> set all_states \<Longrightarrow> pair_rank state \<le> 1"
proof -
  assume "state \<in> set all_states"
  then have "set state \<subseteq> set ''abcdefghi''"
    by (simp add: set_all_states)
  then have "state \<noteq> ''root''"
    by auto
  then show ?thesis
    by (simp add: pair_rank_def)
qed

lemma pair_warmup_below:
  "\<exists>final. warmup (Suc (Suc (Suc 0))) pair_tree random np_wide Memoize_tree_init = Some (Inr (), final) \<and>
     changes_below pair_rank 1 Memoize_tree_init final"
  using pair_tree_ranked pair_rank_le
proof (rule warmup_returns)
  show "changes_below pair_rank 1 Memoize_tree_init Memoize_tree_init"
    by (rule changes_below_refl)
next
  fix state s out s'
  assume state: "state \<in> set all_states" and before: "changes_below pair_rank 1 Memoize_tree_init s"
    and run: "determine_move (Suc (Suc (Suc 0))) pair_tree state False (map_option (\<lambda>draw. draw state) random) np_wide s = Some (out, s')"
  from determine_move_changes_below [OF pair_tree_ranked run] candidate_pair_rank [OF state]
  have "changes_below pair_rank 1 s s'"
    by (rule changes_below_mono)
  with before show "changes_below pair_rank 1 Memoize_tree_init s'"
    by (rule changes_below_trans)
qed

lemma comprehension_st_established:
  assumes "\<And>x s v s'. x \<in> set xs \<Longrightarrow> g x s = Some (Inr v, s') \<Longrightarrow> Q x s'"
    and "\<And>x y s out s'. y \<in> set xs \<Longrightarrow> Q x s \<Longrightarrow> g y s = Some (out, s') \<Longrightarrow> Q x s'"
    and "comprehension_st g xs s = Some (Inr vs, s')"
  shows "\<forall>x \<in> set xs. Q x s'"
  using assms
proof (induction xs arbitrary: s vs)
  case Nil
  show ?case by simp
next
  case (Cons x xs)
  from Cons.prems(3) obtain v s1 ws where gx: "g x s = Some (Inr v, s1)"
    and rest: "comprehension_st g xs s1 = Some (Inr ws, s')"
    by (auto split: option.splits sum.splits)
  from Cons.prems(1) [OF _ gx] have Qx: "Q x s1"
    by simp
  have keep: "Q x s'"
    using _ Qx rest
  proof (rule comprehension_st_invariant [where P = "Q x"])
    fix y s out s' assume "y \<in> set xs" "Q x s" "g y s = Some (out, s')"
    then show "Q x s'"
      using Cons.prems(2) [of y x s out s'] by simp
  qed
  have "\<forall>y \<in> set xs. Q y s'"
  proof (rule Cons.IH [OF _ _ rest])
    fix y s v s' assume "y \<in> set xs" "g y s = Some (Inr v, s')"
    then show "Q y s'"
      using Cons.prems(1) by simp
  next
    fix a y s out s' assume "y \<in> set xs" "Q a s" "g y s = Some (out, s')"
    then show "Q a s'"
      using Cons.prems(2) [of y a s out s'] by simp
  qed
  with keep show ?case
    by simp
qed

lemma children_stored_after_scores:
  assumes "tree_ranked tree rank"
    and "comprehension_st (\<lambda>child. minmax_tt_memo n tree child is_max) cs self = Some (Inr vs, self')"
  shows "\<forall>child \<in> set cs. memo self' (child, is_max) \<noteq> None"
proof (rule comprehension_st_established
    [where Q = "\<lambda>child s. memo s (child, is_max) \<noteq> None" and g = "\<lambda>child. minmax_tt_memo n tree child is_max"])
  fix x s v s' assume "minmax_tt_memo n tree x is_max s = Some (Inr v, s')"
  with assms(1) have "memo s' (x, is_max) = Some v"
    by (rule minmax_tt_memo_stores)
  then show "memo s' (x, is_max) \<noteq> None"
    by simp
next
  fix x y s out s'
  assume "memo s (x, is_max) \<noteq> None" "minmax_tt_memo n tree y is_max s = Some (out, s')"
  then show "memo s' (x, is_max) \<noteq> None"
    using minmax_tt_memo_keeps [OF assms(1)] by fastforce
next
  show "comprehension_st (\<lambda>child. minmax_tt_memo n tree child is_max) cs self = Some (Inr vs, self')"
    by (rule assms(2))
qed

lemma minmax_tt_memo_closed:
  assumes "tree_ranked tree rank"
  shows "memo_closed tree self \<Longrightarrow> minmax_tt_memo n tree current_id is_max self = Some (res, self') \<Longrightarrow>
     memo_closed tree self'"
proof (induction n arbitrary: current_id is_max self res self')
  case 0
  then show ?case by simp
next
  case (Suc n)
  show ?case
  proof (cases "memo self (current_id, is_max)")
    case (Some v)
    with Suc.prems show ?thesis
      by (simp add: Memoize_tree_call_def)
  next
    case None
    with minmax_tt_memo_effect [OF assms Suc.prems(2)] obtain mid where
      fn: "minmax_tt_fn (minmax_tt_memo n) tree (current_id, is_max) self = Some (res, mid)"
      and self': "self' = mid\<lparr>memo := (case res of Inl e \<Rightarrow> memo mid
                                   | Inr v \<Rightarrow> (memo mid)((current_id, is_max) \<mapsto> v)),
                        fn_log := fn_log mid @ [((current_id, is_max), res)]\<rparr>"
      by auto
    have closed_mid: "memo_closed tree mid"
      using minmax_tt_fn_cases [OF fn]
    proof
      assume "mid = self"
      with Suc.prems(1) show ?thesis by simp
    next
      assume "\<exists>current_node R. tree current_id = Some current_node \<and>
          comprehension_st (\<lambda>child. minmax_tt_memo n tree child (\<not> is_max)) (successors current_node) self
            = Some (R, mid)"
      then obtain current_node :: node and R where
        run: "comprehension_st (\<lambda>child. minmax_tt_memo n tree child (\<not> is_max))
              (successors current_node) self = Some (R, mid)"
        by auto
      show ?thesis
        using run
        by (rule comprehension_st_invariant [where P = "memo_closed tree", rotated 2])
           (auto intro: Suc.IH Suc.prems(1))
    qed
    show ?thesis
    proof (cases res)
      case (Inl e)
      with self' closed_mid show ?thesis
        by (simp add: memo_closed_def)
    next
      case (Inr v)
      have kids: "memo mid (child, \<not> is_max) \<noteq> None"
        if "tree current_id = Some current_node" "\<not> is_endstate current_node"
          "child \<in> set (successors current_node)" for current_node child
      proof -
        from fn Inr that(1,2) obtain scores where
          "comprehension_st (\<lambda>child. minmax_tt_memo n tree child (\<not> is_max))
              (successors current_node) self = Some (Inr scores, mid)"
          by (auto simp: minmax_tt_fn_def tree_getitem_def tree_children_def
              split: option.splits sum.splits if_splits)
        from children_stored_after_scores [OF assms this] that(3) show ?thesis
          by blast
      qed
      show ?thesis
        unfolding memo_closed_def
      proof (intro allI impI)
        fix cid r w node child
        assume stored: "memo self' (cid, r) = Some w" and node: "tree cid = Some node"
          and inner: "\<not> is_endstate node" and child: "child \<in> set (successors node)"
        have "memo mid (child, \<not> r) \<noteq> None"
        proof (cases "(cid, r) = (current_id, is_max)")
          case True
          with kids node inner child show ?thesis
            by simp
        next
          case False
          with stored self' Inr have "memo mid (cid, r) = Some w"
            by (simp split: if_splits)
          with closed_mid node inner child show ?thesis
            unfolding memo_closed_def by blast
        qed
        with self' Inr show "memo self' (child, \<not> r) \<noteq> None"
          by simp
      qed
    qed
  qed
qed

lemma session_closed:
  assumes "tree_ranked tree rank"
  shows "session tree self \<Longrightarrow> memo_closed tree self"
proof (induction rule: session.induct)
  case session_init
  show ?case
    by (simp add: memo_closed_def Memoize_tree_init_def)
next
  case (session_call self n current_id is_max outcome self')
  then show ?case
    using minmax_tt_memo_closed [OF assms] by blast
qed

lemma determine_move_session:
  assumes "session tree self"
    and "determine_move n tree current_id is_max random np_wide self = Some (out, self')"
  shows "session tree self'"
proof (cases "tree current_id")
  case None
  with assms show ?thesis
    by (simp add: determine_move_def tree_children_def Let_def)
next
  case (Some current_node)
  show ?thesis
  proof (cases "comprehension_st (\<lambda>child. minmax_tt_memo n tree child (\<not> is_max))
                  (successors current_node) self")
    case None
    with assms Some show ?thesis
      by (auto simp: determine_move_def tree_children_def Let_def split: option.splits sum.splits)
  next
    case run: (Some result)
    obtain R mid where result: "result = (R, mid)"
      by (cases result)
    have mid: "session tree mid"
      using run [unfolded result]
      by (rule comprehension_st_invariant [where P = "session tree", rotated 2])
         (auto intro: session_call assms(1))
    from assms(2) Some run result have "self' = self \<or> self' = mid"
      by (auto simp: determine_move_def tree_children_def Let_def split: option.splits sum.splits)
    with mid assms(1) show ?thesis
      by auto
  qed
qed

lemma chain_tree_well_formed: "tree_well_formed chain_tree chain_rank"
  unfolding tree_well_formed_def tree_ranked_def
  by (auto simp: chain_tree_def chain_rank_def split: if_splits)

lemma chain_rank_le: "\<forall>nid. chain_rank nid \<le> Suc (Suc (Suc 0))"
  by (simp add: chain_rank_def numeral_3_eq_3)

chapter \<open>The properties\<close>

section \<open>The evaluator\<close>

text \<open>
  C1. For a position identifier that is present in the tree and for either role: when
  the node is terminal the evaluator returns the node's fixed value, already at recursion
  depth one, where no child can be evaluated; when the node is not terminal and each of
  its children, evaluated with the opposite role, yields a score, the evaluator returns
  the maximum of these scores for the maximizing role and their minimum for the
  minimizing role. On a well-formed tree the evaluator returns a score for every
  position of the tree as soon as the depth bound exceeds the rank of the position.
\<close>

theorem minmax_tt_terminal_or_extremum:
  assumes "tree current_id = Some current_node"
  shows "(is_endstate current_node \<longrightarrow>
            minmax_tt (Suc 0) tree current_id is_max = Some (Inr (get_value current_node)) \<and>
            minmax_tt (Suc n) tree current_id is_max = Some (Inr (get_value current_node))) \<and>
         (\<not> is_endstate current_node \<longrightarrow> successors current_node \<noteq> [] \<longrightarrow>
            (\<forall>child \<in> set (successors current_node).
               minmax_tt n tree child (\<not> is_max) = Some (Inr (score child))) \<longrightarrow>
            minmax_tt (Suc n) tree current_id is_max =
              Some (Inr (if is_max then Max (score ` set (successors current_node))
                         else Min (score ` set (successors current_node))))) \<and>
         (tree_well_formed tree rank \<longrightarrow> rank current_id < m \<longrightarrow>
            (\<exists>v. minmax_tt m tree current_id is_max = Some (Inr v)))"
proof (intro conjI impI)
  assume "is_endstate current_node"
  with assms show "minmax_tt (Suc 0) tree current_id is_max = Some (Inr (get_value current_node))"
    by (simp add: tree_getitem_def)
next
  assume "is_endstate current_node"
  with assms show "minmax_tt (Suc n) tree current_id is_max = Some (Inr (get_value current_node))"
    by (simp add: tree_getitem_def)
next
  assume inner: "\<not> is_endstate current_node"
    and nonempty: "successors current_node \<noteq> []"
    and children: "\<forall>child \<in> set (successors current_node).
          minmax_tt n tree child (\<not> is_max) = Some (Inr (score child))"
  let ?cs = "successors current_node"
  have scores: "comprehension (\<lambda>child. minmax_tt n tree child (\<not> is_max)) ?cs
                  = Some (Inr (map score ?cs))"
    using children by (intro comprehension_all_values) simp
  have ne: "map score ?cs \<noteq> []"
    using nonempty by simp
  show "minmax_tt (Suc n) tree current_id is_max =
          Some (Inr (if is_max then Max (score ` set ?cs) else Min (score ` set ?cs)))"
    using assms inner scores py_max_Max [OF ne] py_min_Min [OF ne]
    by (simp add: tree_getitem_def tree_children_def)
next
  assume "tree_well_formed tree rank" "rank current_id < m"
  with assms show "\<exists>v. minmax_tt m tree current_id is_max = Some (Inr v)"
    by (intro minmax_tt_value) auto
qed

theorem minmax_tt_terminal_or_extremum_witness:
  "row_tree ''a'' = Some \<lparr>is_endstate = True, get_value = 1, successors = []\<rparr> \<and>
   minmax_tt (Suc 0) row_tree ''a'' False = Some (Inr 1) \<and>
   row_tree ''root'' =
     Some \<lparr>is_endstate = False, get_value = 0, successors = [''a'', ''b'', ''c'']\<rparr> \<and>
   minmax_tt (Suc (Suc 0)) row_tree ''root'' True = Some (Inr 1) \<and>
   minmax_tt (Suc (Suc 0)) row_tree ''root'' False = Some (Inr (- 1)) \<and>
   tree_well_formed row_tree row_rank \<and> row_rank ''root'' < Suc (Suc 0) \<and>
   (\<exists>v. minmax_tt (Suc (Suc 0)) row_tree ''root'' True = Some (Inr v))"
proof -
  have depth: "row_rank ''root'' < Suc (Suc 0)"
    by (simp add: row_rank_def)
  from row_tree_a minmax_tt_terminal_or_extremum [of row_tree "''a''" _ False 0]
  have 1: "minmax_tt (Suc 0) row_tree ''a'' False = Some (Inr 1)"
    by simp
  from row_tree_root
    minmax_tt_terminal_or_extremum [of row_tree "''root''" _ True "Suc 0" row_score]
    row_tree_children_scores [of True]
  have 2: "minmax_tt (Suc (Suc 0)) row_tree ''root'' True = Some (Inr 1)"
    by (simp add: row_score_def)
  from row_tree_root
    minmax_tt_terminal_or_extremum [of row_tree "''root''" _ False "Suc 0" row_score]
    row_tree_children_scores [of False]
  have 3: "minmax_tt (Suc (Suc 0)) row_tree ''root'' False = Some (Inr (- 1))"
    by (simp add: row_score_def)
  from row_tree_root row_tree_well_formed depth
    minmax_tt_terminal_or_extremum [of row_tree "''root''" _ True _ _ row_rank "Suc (Suc 0)"]
  have 4: "\<exists>v. minmax_tt (Suc (Suc 0)) row_tree ''root'' True = Some (Inr v)"
    by blast
  from row_tree_a row_tree_root 1 2 3 row_tree_well_formed depth 4 show ?thesis
    by blast
qed

section \<open>Cache transparency\<close>

text \<open>
  C2. In every state that the memoized object can have in a session over a tree, the
  decorated evaluator returns what the uncached evaluator returns for the same identifier
  and role on that tree, a score or an error alike: whenever the uncached evaluator
  returns within some depth, so does the decorated one within the same depth, with the
  same outcome, and whatever the decorated one returns, the uncached one returns too.
\<close>

theorem memoized_minmax_tt_agrees:
  assumes "session tree self"
  shows "(minmax_tt n tree current_id is_max = Some res \<longrightarrow>
            (\<exists>self'. minmax_tt_memo n tree current_id is_max self = Some (res, self') \<and>
                    session tree self')) \<and>
         (minmax_tt_memo n tree current_id is_max self = Some (res, self') \<longrightarrow>
            (\<exists>m. minmax_tt m tree current_id is_max = Some res))"
proof (intro conjI impI)
  assume "minmax_tt n tree current_id is_max = Some res"
  with session_sound [OF assms] obtain self1 where
    "minmax_tt_memo n tree current_id is_max self = Some (res, self1)"
    using minmax_tt_memo_transparent by blast
  with assms show "\<exists>self'. minmax_tt_memo n tree current_id is_max self = Some (res, self') \<and>
      session tree self'"
    by (blast intro: session_call)
next
  assume "minmax_tt_memo n tree current_id is_max self = Some (res, self')"
  with session_sound [OF assms] show "\<exists>m. minmax_tt m tree current_id is_max = Some res"
    using minmax_tt_memo_sound by blast
qed

theorem memoized_minmax_tt_agrees_witness:
  "session pair_tree Memoize_tree_init \<and>
   minmax_tt (Suc (Suc 0)) pair_tree ''a'' False = Some (Inr 1) \<and>
   minmax_tt_memo (Suc (Suc 0)) pair_tree ''a'' False Memoize_tree_init =
     Some (Inr 1, \<lparr>memo = [(''ab'', True) \<mapsto> 1, (''a'', False) \<mapsto> 1],
                   fn_log = [((''ab'', True), Inr 1), ((''a'', False), Inr 1)]\<rparr>) \<and>
   (\<exists>self'. minmax_tt_memo (Suc (Suc 0)) pair_tree ''a'' False Memoize_tree_init =
              Some (Inr 1, self') \<and> session pair_tree self') \<and>
   (\<exists>m. minmax_tt m pair_tree ''a'' False = Some (Inr 1))"
proof -
  have fresh: "session pair_tree Memoize_tree_init"
    by (rule session_init)
  have plain: "minmax_tt (Suc (Suc 0)) pair_tree ''a'' False = Some (Inr 1)"
    by (simp add: pair_tree_def tree_getitem_def tree_children_def)
  have cached: "minmax_tt_memo (Suc (Suc 0)) pair_tree ''a'' False Memoize_tree_init =
     Some (Inr 1, \<lparr>memo = [(''ab'', True) \<mapsto> 1, (''a'', False) \<mapsto> 1],
                   fn_log = [((''ab'', True), Inr 1), ((''a'', False), Inr 1)]\<rparr>)"
    by (simp add: pair_tree_def Memoize_tree_call_def minmax_tt_fn_def tree_getitem_def
          tree_children_def Memoize_tree_init_def)
  note agree = memoized_minmax_tt_agrees [OF fresh, of "Suc (Suc 0)" "''a''" False "Inr 1"]
  from agree plain have fwd: "\<exists>self'. minmax_tt_memo (Suc (Suc 0)) pair_tree ''a'' False
      Memoize_tree_init = Some (Inr 1, self') \<and> session pair_tree self'"
    by blast
  from agree cached have bwd: "\<exists>m. minmax_tt m pair_tree ''a'' False = Some (Inr 1)"
    by blast
  from fresh plain cached fwd bwd show ?thesis
    by blast
qed

section \<open>At most one evaluation per key\<close>

text \<open>
  C3 fails as it is stated for a key whose evaluation raises: nothing is stored for it,
  so the next call with the same key invokes the wrapped function again. Here the
  identifier \<open>zz\<close> is not in the tree, and two calls invoke the function twice.
\<close>

theorem memoize_failing_key_evaluated_twice:
  "minmax_tt_memo (Suc 0) row_tree ''zz'' True Memoize_tree_init =
     Some (Inl NodeIDAbsentError,
           \<lparr>memo = Map.empty, fn_log = [((''zz'', True), Inl NodeIDAbsentError)]\<rparr>) \<and>
   minmax_tt_memo (Suc 0) row_tree ''zz'' True
       \<lparr>memo = Map.empty, fn_log = [((''zz'', True), Inl NodeIDAbsentError)]\<rparr> =
     Some (Inl NodeIDAbsentError,
           \<lparr>memo = Map.empty, fn_log = [((''zz'', True), Inl NodeIDAbsentError),
                                         ((''zz'', True), Inl NodeIDAbsentError)]\<rparr>) \<and>
   invocations [((''zz'', True), Inl NodeIDAbsentError :: error + int),
                ((''zz'', True), Inl NodeIDAbsentError)] (''zz'', True) = 2"
  by (simp add: row_tree_def eval_defs invocations_def)

text \<open>
  C3, amended. In a session over a tree, a call with a key that is stored returns the
  stored score and leaves the object as it is: the wrapped function is not invoked. A
  call with a key that is not stored returns when the call stack is deep enough for the
  position; it invokes the wrapped function for this key exactly once, and when that
  returns a score, the score is stored under the key and returned. So after any sequence
  of calls every key has at most one evaluation that returned a score (one when the key
  is stored, none otherwise), and a stored score stays as it is, so every later call
  with the key returns it. An evaluation that raises stores nothing and is repeated by
  the next call with the key.
\<close>

theorem memoize_at_most_one_evaluation:
  assumes "tree_ranked tree rank" and "session tree self"
  shows "(\<forall>v m. memo self (current_id, is_max) = Some v \<longrightarrow>
            minmax_tt_memo (Suc m) tree current_id is_max self = Some (Inr v, self)) \<and>
         (\<forall>m. rank current_id < m \<longrightarrow>
            (\<exists>res self'. minmax_tt_memo m tree current_id is_max self = Some (res, self'))) \<and>
         (\<forall>m res self'. minmax_tt_memo m tree current_id is_max self = Some (res, self') \<longrightarrow>
            (memo self (current_id, is_max) = None \<longrightarrow>
               invocations (fn_log self') (current_id, is_max) =
                 Suc (invocations (fn_log self) (current_id, is_max)) \<and>
               (\<forall>v. res = Inr v \<longrightarrow> memo self' (current_id, is_max) = Some v)) \<and>
            (\<forall>key. evaluations (fn_log self') key = (if memo self' key = None then 0 else 1)) \<and>
            (\<forall>key v. memo self key = Some v \<longrightarrow> memo self' key = Some v))"
proof (intro conjI allI impI)
  fix v m assume "memo self (current_id, is_max) = Some v"
  then show "minmax_tt_memo (Suc m) tree current_id is_max self = Some (Inr v, self)"
    by (simp add: Memoize_tree_call_def)
next
  fix m assume "rank current_id < m"
  then show "\<exists>res self'. minmax_tt_memo m tree current_id is_max self = Some (res, self')"
    by (rule minmax_tt_memo_returns [OF assms(1)])
next
  fix m res self'
  assume run: "minmax_tt_memo m tree current_id is_max self = Some (res, self')"
    and miss: "memo self (current_id, is_max) = None"
  from minmax_tt_memo_miss_summary(2) [OF assms(1) miss run]
  show "invocations (fn_log self') (current_id, is_max) =
      Suc (invocations (fn_log self) (current_id, is_max))" .
  fix v assume "res = Inr v"
  with minmax_tt_memo_miss_summary(1) [OF assms(1) miss run]
  show "memo self' (current_id, is_max) = Some v"
    by simp
next
  fix m res self' key
  assume run: "minmax_tt_memo m tree current_id is_max self = Some (res, self')"
  have "evaluated_once self'"
    using session_evaluated_once [OF assms] run
    by (rule minmax_tt_memo_evaluated_once [OF assms(1)])
  then show "evaluations (fn_log self') key = (if memo self' key = None then 0 else 1)"
    unfolding evaluated_once_def by (rule spec)
next
  fix m res self' key v
  assume "minmax_tt_memo m tree current_id is_max self = Some (res, self')"
    and "memo self key = Some v"
  with assms(1) show "memo self' key = Some v"
    by (rule minmax_tt_memo_keeps)
qed

theorem memoize_at_most_one_evaluation_witness:
  "tree_ranked pair_tree pair_rank \<and> session pair_tree pair_cache_a \<and>
   memo pair_cache_a (''a'', False) = Some 1 \<and>
   minmax_tt_memo (Suc 0) pair_tree ''a'' False pair_cache_a = Some (Inr 1, pair_cache_a) \<and>
   memo pair_cache_a (''root'', True) = None \<and>
   pair_rank ''root'' < Suc (Suc (Suc 0)) \<and>
   minmax_tt_memo (Suc (Suc (Suc 0))) pair_tree ''root'' True pair_cache_a =
     Some (Inr 1, pair_cache_root) \<and>
   invocations (fn_log pair_cache_root) (''root'', True) = 1 \<and>
   memo pair_cache_root (''root'', True) = Some 1 \<and>
   evaluations (fn_log pair_cache_root) (''a'', False) = 1 \<and>
   memo pair_cache_root (''a'', False) = Some 1"
proof -
  have sess: "session pair_tree pair_cache_a"
    using session_init pair_call_a by (rule session_call)
  have stored: "memo pair_cache_a (''a'', False) = Some 1"
    and absent: "memo pair_cache_a (''root'', True) = None"
    by (simp_all add: pair_cache_a_def)
  have depth: "pair_rank ''root'' < Suc (Suc (Suc 0))"
    by (simp add: pair_rank_def)
  note hit = memoize_at_most_one_evaluation [OF pair_tree_ranked sess, of "''a''" False]
  note miss = memoize_at_most_one_evaluation [OF pair_tree_ranked sess, of "''root''" True]
  from hit stored have 0: "minmax_tt_memo (Suc 0) pair_tree ''a'' False pair_cache_a
      = Some (Inr 1, pair_cache_a)"
    by blast
  from miss depth have "\<exists>res self'. minmax_tt_memo (Suc (Suc (Suc 0))) pair_tree ''root'' True
      pair_cache_a = Some (res, self')"
    by blast
  from miss pair_call_root absent
  have "invocations (fn_log pair_cache_root) (''root'', True) =
      Suc (invocations (fn_log pair_cache_a) (''root'', True))"
    by blast
  then have 1: "invocations (fn_log pair_cache_root) (''root'', True) = 1"
    by (simp add: pair_cache_a_def invocations_def)
  from miss pair_call_root absent have 2: "memo pair_cache_root (''root'', True) = Some 1"
    by blast
  from miss pair_call_root stored have 3: "memo pair_cache_root (''a'', False) = Some 1"
    by blast
  from miss pair_call_root
  have "evaluations (fn_log pair_cache_root) (''a'', False) =
      (if memo pair_cache_root (''a'', False) = None then 0 else 1)"
    by blast
  with 3 have 4: "evaluations (fn_log pair_cache_root) (''a'', False) = 1"
    by simp
  from pair_tree_ranked sess stored absent depth 0 pair_call_root 1 2 3 4
  show ?thesis by blast
qed

section \<open>The cache key\<close>

text \<open>
  C4. The key of the memoized evaluator is the pair of the position identifier and the
  role, without the tree: a call that returns a score leaves this score stored under
  exactly that pair, and from then on a call with the same identifier and role is
  answered from this entry whatever tree is passed. The two roles of one identifier
  have two entries: the call for one role leaves the entry of the other role as it
  was, and the score stored for a role is the score of the uncached evaluator for that
  role.
\<close>

theorem cache_key_is_identifier_and_role:
  assumes "tree_ranked tree rank" and "session tree self"
    and "minmax_tt_memo n tree current_id is_max self = Some (Inr v, self')"
  shows "memo self' (current_id, is_max) = Some v \<and>
         memo self' (current_id, \<not> is_max) = memo self (current_id, \<not> is_max) \<and>
         (\<forall>other_tree m. minmax_tt_memo (Suc m) other_tree current_id is_max self' = Some (Inr v, self')) \<and>
         (\<exists>m. minmax_tt m tree current_id is_max = Some (Inr v))"
proof -
  have stored: "memo self' (current_id, is_max) = Some v"
  proof (cases "memo self (current_id, is_max)")
    case None
    from minmax_tt_memo_miss_summary(1) [OF assms(1) None assms(3)] show ?thesis by simp
  next
    case (Some w)
    with minmax_tt_memo_effect [OF assms(1,3)] show ?thesis by auto
  qed
  have other: "memo self' (current_id, \<not> is_max) = memo self (current_id, \<not> is_max)"
  proof (cases "memo self (current_id, is_max)")
    case None
    from minmax_tt_memo_miss_summary(4) [OF assms(1) None assms(3)] show ?thesis
      by (metis fst_conv less_irrefl prod.inject)
  next
    case (Some w)
    with minmax_tt_memo_effect [OF assms(1,3)] show ?thesis by auto
  qed
  from stored have hit: "\<forall>other_tree m. minmax_tt_memo (Suc m) other_tree current_id is_max self'
      = Some (Inr v, self')"
    by (simp add: Memoize_tree_call_def)
  from minmax_tt_memo_sound [OF session_sound [OF assms(2)] assms(3)]
  have "\<exists>m. minmax_tt m tree current_id is_max = Some (Inr v)"
    by simp
  with stored other hit show ?thesis by blast
qed

theorem cache_key_is_identifier_and_role_witness:
  "tree_ranked pair_tree pair_rank \<and> session pair_tree pair_cache_a \<and>
   minmax_tt_memo (Suc (Suc (Suc 0))) pair_tree ''root'' True pair_cache_a =
     Some (Inr 1, pair_cache_root) \<and>
   memo pair_cache_root (''root'', True) = Some 1 \<and>
   memo pair_cache_root (''root'', False) = None \<and>
   minmax_tt_memo (Suc 0) row_tree ''root'' True pair_cache_root = Some (Inr 1, pair_cache_root) \<and>
   (\<exists>m. minmax_tt m pair_tree ''root'' True = Some (Inr 1))"
proof -
  have sess: "session pair_tree pair_cache_a"
    using session_init pair_call_a by (rule session_call)
  note key = cache_key_is_identifier_and_role [OF pair_tree_ranked sess pair_call_root]
  from key have 1: "memo pair_cache_root (''root'', True) = Some 1"
    by blast
  from key have 2: "memo pair_cache_root (''root'', False) = None"
    by (simp add: pair_cache_a_def)
  from key have 3: "minmax_tt_memo (Suc 0) row_tree ''root'' True pair_cache_root
      = Some (Inr 1, pair_cache_root)"
    by blast
  from key have 4: "\<exists>m. minmax_tt m pair_tree ''root'' True = Some (Inr 1)"
    by blast
  from pair_tree_ranked sess pair_call_root 1 2 3 4 show ?thesis by blast
qed

section \<open>The move selector\<close>

text \<open>
  C5 does not hold of the notebook as it is committed. For a position with at least one
  child, in a session over the tree, \<^verbatim>\<open>determine_move\<close> evaluates each child with the
  opposite role (the scores it uses are the scores of the uncached evaluator). Then the
  \<^verbatim>\<open>return\<close> statement looks up the name \<^verbatim>\<open>random\<close>, which no cell binds: the call
  raises \<^verbatim>\<open>NameError\<close> and returns no move.

  In a session that binds \<^verbatim>\<open>random\<close> to the standard module, and for scores that all
  fit a signed 64-bit integer (so that the array holds them as they are), the function
  does what C5 says: it takes the maximum of the scores for the maximizing role and their
  minimum otherwise, and returns the last symbol of a child whose score equals that
  value exactly. The tying children are listed once each, and the number that the
  generator draws below their count selects the child at that place of the list: each
  tying child is returned for exactly one draw, so a uniform draw chooses uniformly among
  them. In the scenario of the spec, the children \<open>a\<close>, \<open>b\<close>, \<open>c\<close> with the
  values \<open>+1\<close>, \<open>-1\<close>, \<open>+1\<close> and the maximizing role give \<^verbatim>\<open>NameError\<close> as committed,
  with the three scores left in the cache; with \<^verbatim>\<open>random\<close> bound they give \<open>a\<close> for the
  draw \<open>0\<close>, \<open>c\<close> for the draw \<open>1\<close>, and \<open>b\<close> for no draw.
\<close>

theorem determine_move_raises_name_error:
  assumes "tree current_id = Some current_node"
    and "successors current_node \<noteq> []"
    and "\<forall>child \<in> set (successors current_node). child \<noteq> []"
    and "session tree self"
    and "\<forall>child \<in> set (successors current_node).
           minmax_tt n tree child (\<not> is_max) = Some (Inr (score child))"
    and "best = (if is_max then Max (score ` set (successors current_node))
                 else Min (score ` set (successors current_node)))"
    and "ties = filter (\<lambda>i. score (successors current_node ! i) = best)
                  [0..<length (successors current_node)]"
  shows "(\<exists>self'. determine_move n tree current_id is_max None np_wide self =
                 Some (Inl NameError, self') \<and>
               session tree self') \<and>
         ties \<noteq> [] \<and> distinct ties \<and>
         set ties = {i. i < length (successors current_node) \<and>
                        score (successors current_node ! i) = best} \<and>
         (list_all int64 (map score (successors current_node)) \<longrightarrow>
            (\<forall>randbelow. randbelow (length ties) < length ties \<longrightarrow>
               (\<exists>self'. determine_move n tree current_id is_max (Some randbelow) np_wide self =
                    Some (Inr [last (successors current_node ! (ties ! randbelow (length ties)))], self') \<and>
                  session tree self')))"
proof -
  let ?cs = "successors current_node"
  have fin: "finite (score ` set ?cs)" and ne: "score ` set ?cs \<noteq> {}"
    using assms(2) by auto
  have "best \<in> score ` set ?cs"
    unfolding assms(6) using Max_in [OF fin ne] Min_in [OF fin ne] by simp
  then obtain i where i: "i < length ?cs" "score (?cs ! i) = best"
    by (auto simp: in_set_conv_nth)
  have set_ties: "set ties = {i. i < length ?cs \<and> score (?cs ! i) = best}"
    unfolding assms(7) by auto
  from i have "i \<in> {i. i < length ?cs \<and> score (?cs ! i) = best}"
    by simp
  then have "i \<in> set ties"
    unfolding set_ties .
  then have ties_ne: "ties \<noteq> []"
    by (cases ties) simp_all
  have dist: "distinct ties"
    unfolding assms(7) by simp
  have moves: "comprehension (\<lambda>child. Some (py_last child)) ?cs = Some (Inr (map (\<lambda>child. [last child]) ?cs))"
    using assms(3) by (intro comprehension_all_values) (simp add: py_last_def)
  from session_comprehension_st [OF assms(4,5)] obtain self' where
    run: "comprehension_st (\<lambda>child. minmax_tt_memo n tree child (\<not> is_max)) ?cs self
            = Some (Inr (map score ?cs), self')"
    and sess: "session tree self'"
    by blast
  have unbound: "determine_move n tree current_id is_max None np_wide self = Some (Inl NameError, self')"
    unfolding determine_move_def
    using assms(1) moves run
    by (simp add: tree_children_def)
  have ne_scores: "map score ?cs \<noteq> []"
    using assms(2) by simp
  have ext: "(if is_max then py_max (map score ?cs) else py_min (map score ?cs)) = Inr best"
    unfolding assms(6) using py_max_Max [OF ne_scores] py_min_Min [OF ne_scores] by simp
  have where_eq: "np_where_eq (map score ?cs) best = ties"
    unfolding assms(7) by (rule np_where_eq_map)
  have "determine_move n tree current_id is_max (Some randbelow) np_wide self =
          Some (Inr [last (?cs ! (ties ! randbelow (length ties)))], self')"
    if fits: "list_all int64 (map score ?cs)"
      and r: "randbelow (length ties) < length ties" for randbelow
  proof -
    from fits have arr: "np_array np_wide (map score ?cs) = map score ?cs"
      by (simp add: np_array_def)
    from r have "ties ! randbelow (length ties) \<in> set ties"
      by simp
    with set_ties have lt: "ties ! randbelow (length ties) < length ?cs"
      by auto
    from r ties_ne have choice: "random_choice randbelow ties = Inr (ties ! randbelow (length ties))"
      by (simp add: random_choice_def py_index_def)
    from lt have pick: "py_index (map (\<lambda>child. [last child]) ?cs) (ties ! randbelow (length ties))
        = Inr [last (?cs ! (ties ! randbelow (length ties)))]"
      by (simp add: py_index_def)
    show ?thesis
      unfolding determine_move_def
      using assms(1) moves run arr ext where_eq choice pick
      by (simp add: tree_children_def)
  qed
  with unbound sess ties_ne dist set_ties show ?thesis
    by blast
qed

theorem determine_move_raises_name_error_witness:
  "row_tree ''root'' =
     Some \<lparr>is_endstate = False, get_value = 0, successors = [''a'', ''b'', ''c'']\<rparr> \<and>
   session row_tree Memoize_tree_init \<and>
   determine_move (Suc 0) row_tree ''root'' True None (\<lambda>scores v. v) Memoize_tree_init =
     Some (Inl NameError,
           \<lparr>memo = [(''a'', False) \<mapsto> 1, (''b'', False) \<mapsto> - 1, (''c'', False) \<mapsto> 1],
            fn_log = [((''a'', False), Inr 1), ((''b'', False), Inr (- 1)), ((''c'', False), Inr 1)]\<rparr>) \<and>
   map_option fst
       (determine_move (Suc 0) row_tree ''root'' True (Some (\<lambda>k. 0)) (\<lambda>scores v. v) Memoize_tree_init)
     = Some (Inr ''a'') \<and>
   map_option fst
       (determine_move (Suc 0) row_tree ''root'' True (Some (\<lambda>k. 1)) (\<lambda>scores v. v) Memoize_tree_init)
     = Some (Inr ''c'') \<and>
   \<not> (\<exists>randbelow. randbelow 2 < (2::nat) \<and>
        map_option fst
            (determine_move (Suc 0) row_tree ''root'' True (Some randbelow) (\<lambda>scores v. v) Memoize_tree_init)
          = Some (Inr ''b''))"
proof -
  let ?exact = "\<lambda>(scores :: int list) (v :: int). v"
  have ties: "[0, 2] = filter (\<lambda>i. row_score ([''a'', ''b'', ''c''] ! i) = 1) [0..<length [''a'', ''b'', ''c'']]"
    by (simp add: row_score_def upt_rec)
  have best: "(1::int) = (if True then Max (row_score ` set [''a'', ''b'', ''c''])
      else Min (row_score ` set [''a'', ''b'', ''c'']))"
    by (simp add: row_score_def)
  have fits: "list_all int64 (map row_score [''a'', ''b'', ''c''])"
    by (simp add: row_score_def int64_def)
  have all: "(\<exists>self'. determine_move (Suc 0) row_tree ''root'' True None ?exact Memoize_tree_init =
                 Some (Inl NameError, self') \<and>
               session row_tree self') \<and>
         [0, 2] \<noteq> [] \<and> distinct [0, 2::nat] \<and>
         set [0, 2] = {i. i < length [''a'', ''b'', ''c''] \<and> row_score ([''a'', ''b'', ''c''] ! i) = 1} \<and>
         (list_all int64 (map row_score [''a'', ''b'', ''c'']) \<longrightarrow>
            (\<forall>randbelow. randbelow (length [0, 2::nat]) < length [0, 2::nat] \<longrightarrow>
               (\<exists>self'. determine_move (Suc 0) row_tree ''root'' True (Some randbelow) ?exact Memoize_tree_init =
                    Some (Inr [last ([''a'', ''b'', ''c''] ! ([0, 2] ! randbelow (length [0, 2::nat])))], self') \<and>
                  session row_tree self')))"
    using determine_move_raises_name_error
      [of row_tree "''root''" "\<lparr>is_endstate = False, get_value = 0, successors = [''a'', ''b'', ''c'']\<rparr>"
          Memoize_tree_init "Suc 0" True row_score 1 "[0, 2]" ?exact]
      row_tree_root session_init [of row_tree] row_tree_children_scores [of True] ties best
    by simp
  have unbound: "determine_move (Suc 0) row_tree ''root'' True None ?exact Memoize_tree_init =
     Some (Inl NameError,
           \<lparr>memo = [(''a'', False) \<mapsto> 1, (''b'', False) \<mapsto> - 1, (''c'', False) \<mapsto> 1],
            fn_log = [((''a'', False), Inr 1), ((''b'', False), Inr (- 1)), ((''c'', False), Inr 1)]\<rparr>)"
    by (simp add: determine_move_def row_tree_def eval_defs py_last_def)
  from all fits have pick: "\<exists>self'. determine_move (Suc 0) row_tree ''root'' True (Some randbelow) ?exact Memoize_tree_init =
        Some (Inr [last ([''a'', ''b'', ''c''] ! ([0, 2] ! randbelow 2))], self')"
    if "randbelow 2 < (2::nat)" for randbelow
    using that by (auto simp: numeral_2_eq_2)
  from pick [of "\<lambda>k. 0"]
  have a: "map_option fst
      (determine_move (Suc 0) row_tree ''root'' True (Some (\<lambda>k. 0)) ?exact Memoize_tree_init)
     = Some (Inr ''a'')"
    by auto
  from pick [of "\<lambda>k. 1"]
  have c: "map_option fst
      (determine_move (Suc 0) row_tree ''root'' True (Some (\<lambda>k. 1)) ?exact Memoize_tree_init)
     = Some (Inr ''c'')"
    by auto
  have never_b: "\<not> (\<exists>randbelow. randbelow 2 < (2::nat) \<and>
        map_option fst
            (determine_move (Suc 0) row_tree ''root'' True (Some randbelow) ?exact Memoize_tree_init)
          = Some (Inr ''b''))"
  proof
    assume "\<exists>randbelow. randbelow 2 < (2::nat) \<and>
        map_option fst
            (determine_move (Suc 0) row_tree ''root'' True (Some randbelow) ?exact Memoize_tree_init)
          = Some (Inr ''b'')"
    then obtain randbelow where r: "randbelow 2 < (2::nat)"
      and b: "map_option fst
            (determine_move (Suc 0) row_tree ''root'' True (Some randbelow) ?exact Memoize_tree_init)
          = Some (Inr ''b'')"
      by blast
    from r have "randbelow 2 = 0 \<or> randbelow 2 = 1"
      by auto
    with pick [of randbelow] r b show False
      by auto
  qed
  from row_tree_root session_init [of row_tree] unbound a c never_b show ?thesis
    by blast
qed

section \<open>What the warm-up caches\<close>

text \<open>
  C6 fails as it is stated. \<^verbatim>\<open>determine_move\<close> evaluates the children of a candidate,
  with the opposite role, and never the candidate itself; the identifier \<open>root\<close> is not
  a candidate. In \<open>pair_tree\<close> the root and the position \<open>a\<close> of length one are present
  and not terminal, and after the warm-up on the fresh object neither has a cache entry,
  for either role.
\<close>

theorem warmup_leaves_first_positions_uncached:
  "pair_tree ''root'' = Some \<lparr>is_endstate = False, get_value = 0, successors = [''a'', ''b'']\<rparr> \<and>
   pair_tree ''a'' = Some \<lparr>is_endstate = False, get_value = 0, successors = [''ab'']\<rparr> \<and>
   map_option (\<lambda>out. (memo (snd out) (''root'', False), memo (snd out) (''root'', True),
                       memo (snd out) (''a'', False), memo (snd out) (''a'', True)))
     (warmup (Suc (Suc (Suc 0))) pair_tree None (\<lambda>scores v. v) Memoize_tree_init)
   = Some (None, None, None, None)"
proof -
  from pair_warmup_below [of None "\<lambda>scores v. v"] obtain final where
    run: "warmup (Suc (Suc (Suc 0))) pair_tree None (\<lambda>scores v. v) Memoize_tree_init = Some (Inr (), final)"
    and below: "changes_below pair_rank 1 Memoize_tree_init final"
    by blast
  have same: "memo final key = None" if "1 \<le> pair_rank (fst key)" for key
  proof -
    from below that have "memo final key = memo (Memoize_tree_init :: cache) key"
      unfolding changes_below_def by blast
    then show ?thesis
      by (simp add: Memoize_tree_init_def)
  qed
  have "memo final (''root'', False) = None" "memo final (''root'', True) = None"
    "memo final (''a'', False) = None" "memo final (''a'', True) = None"
    by (rule same, simp add: pair_rank_def)+
  with run show ?thesis
    by (simp add: pair_tree_def)
qed

text \<open>
  C6, amended. After the warm-up driver finishes on a well-formed tree, with a call
  stack deep enough for the tree and a cache that has been used on this tree only, every
  child of a candidate that is present in the tree (a position whose parent's identifier
  is a permutation of 1 to 8 of the nine symbols) has a cache entry for the role
  \<^verbatim>\<open>True\<close>, the opposite of the role used during warm-up, which holds its score; and
  when such a child is not terminal, every child of it (a position two moves below a
  candidate) has a cache entry for the role \<^verbatim>\<open>False\<close> used during warm-up.
\<close>

theorem warmup_caches_children_of_candidates:
  assumes "tree_well_formed tree rank" and "\<forall>nid. rank nid \<le> n" and "session tree self"
    and "state \<in> set all_states" and "tree state = Some position"
    and "child \<in> set (successors position)"
  shows "\<exists>final v. warmup n tree random np_wide self = Some (Inr (), final) \<and>
            memo final (child, True) = Some v \<and>
            (\<exists>m. minmax_tt m tree child True = Some (Inr v)) \<and>
            (\<forall>child_node grandchild. tree child = Some child_node \<longrightarrow> \<not> is_endstate child_node \<longrightarrow>
               grandchild \<in> set (successors child_node) \<longrightarrow>
               (\<exists>w. memo final (grandchild, False) = Some w))"
proof -
  from assms(1) have ranked: "tree_ranked tree rank"
    by (simp add: tree_well_formed_def)
  let ?body = "\<lambda>state s. try_except_pass (determine_move n tree state False (map_option (\<lambda>draw. draw state) random) np_wide s)"
  have returns: "\<exists>out s'. determine_move n tree x False (map_option (\<lambda>draw. draw x) random) np_wide s = Some (out, s')" for x s
    using ranked assms(2) by (intro determine_move_returns) auto
  from assms(4) obtain pre post where split: "all_states = pre @ state # post"
    by (auto dest: split_list)
  have "\<exists>s'. for_loop pre ?body self = Some (Inr (), s') \<and> session tree s'"
    using assms(3) by (intro for_loop_try) (auto intro: returns determine_move_session)
  then obtain s1 where pre: "for_loop pre ?body self = Some (Inr (), s1)"
    and sess1: "session tree s1"
    by blast
  from assms(2) have "rank state \<le> n"
    by simp
  from determine_move_caches_children [OF assms(1) this assms(5), of False "map_option (\<lambda>draw. draw state) random" np_wide s1] assms(6)
  obtain out s2 v where at: "determine_move n tree state False (map_option (\<lambda>draw. draw state) random) np_wide s1 = Some (out, s2)"
    and stored: "memo s2 (child, True) = Some v"
    by auto
  from sess1 at have sess2: "session tree s2"
    by (rule determine_move_session)
  from at have body: "?body state s1 = Some (Inr (), s2)"
    by (cases out) (simp_all add: try_except_pass_def)
  have "\<exists>s'. for_loop post ?body s2 = Some (Inr (), s') \<and>
      (session tree s' \<and> memo s' (child, True) = Some v)"
  proof (rule for_loop_try [where P = "\<lambda>s. session tree s \<and> memo s (child, True) = Some v"])
    fix x s show "\<exists>out s'. determine_move n tree x False (map_option (\<lambda>draw. draw x) random) np_wide s = Some (out, s')"
      by (rule returns)
  next
    fix x s out s'
    assume before: "session tree s \<and> memo s (child, True) = Some v"
      and run: "determine_move n tree x False (map_option (\<lambda>draw. draw x) random) np_wide s = Some (out, s')"
    from before run have "session tree s'"
      by (blast intro: determine_move_session)
    moreover from determine_move_changes_below [OF ranked run] before
    have "memo s' (child, True) = Some v"
      by (blast intro: changes_below_keeps)
    ultimately show "session tree s' \<and> memo s' (child, True) = Some v"
      by simp
  next
    show "session tree s2 \<and> memo s2 (child, True) = Some v"
      using sess2 stored by simp
  qed
  then obtain final where post: "for_loop post ?body s2 = Some (Inr (), final)"
    and sess: "session tree final" and kept: "memo final (child, True) = Some v"
    by blast
  from pre body post have run: "warmup n tree random np_wide self = Some (Inr (), final)"
    unfolding warmup_def split by (simp add: for_loop_append)
  from session_sound [OF sess] kept have score: "\<exists>m. minmax_tt m tree child True = Some (Inr v)"
    unfolding memo_sound_def by blast
  from session_closed [OF ranked sess] kept
  have below: "\<forall>child_node grandchild. tree child = Some child_node \<longrightarrow> \<not> is_endstate child_node \<longrightarrow>
               grandchild \<in> set (successors child_node) \<longrightarrow>
               (\<exists>w. memo final (grandchild, False) = Some w)"
    unfolding memo_closed_def by fastforce
  from run kept score below show ?thesis
    by blast
qed

theorem warmup_caches_children_of_candidates_witness:
  "tree_well_formed chain_tree chain_rank \<and> (\<forall>nid. chain_rank nid \<le> Suc (Suc (Suc 0))) \<and>
   session chain_tree Memoize_tree_init \<and> ''a'' \<in> set all_states \<and>
   chain_tree ''a'' = Some \<lparr>is_endstate = False, get_value = 0, successors = [''ab'']\<rparr> \<and>
   chain_tree ''ab'' = Some \<lparr>is_endstate = False, get_value = 0, successors = [''abc'']\<rparr> \<and>
   (\<exists>final v w. warmup (Suc (Suc (Suc 0))) chain_tree None (\<lambda>scores v. v) Memoize_tree_init
        = Some (Inr (), final) \<and> memo final (''ab'', True) = Some v \<and>
        memo final (''abc'', False) = Some w)"
proof -
  have a: "chain_tree ''a'' = Some \<lparr>is_endstate = False, get_value = 0, successors = [''ab'']\<rparr>"
    and ab: "chain_tree ''ab'' = Some \<lparr>is_endstate = False, get_value = 0, successors = [''abc'']\<rparr>"
    by (simp_all add: chain_tree_def)
  have "\<exists>final v. warmup (Suc (Suc (Suc 0))) chain_tree None (\<lambda>scores v. v) Memoize_tree_init
        = Some (Inr (), final) \<and> memo final (''ab'', True) = Some v \<and>
        (\<exists>m. minmax_tt m chain_tree ''ab'' True = Some (Inr v)) \<and>
        (\<forall>child_node grandchild. chain_tree ''ab'' = Some child_node \<longrightarrow> \<not> is_endstate child_node \<longrightarrow>
               grandchild \<in> set (successors child_node) \<longrightarrow>
               (\<exists>w. memo final (grandchild, False) = Some w))"
    using chain_tree_well_formed chain_rank_le session_init a_in_all_states a
    by (rule warmup_caches_children_of_candidates) simp
  with ab have "\<exists>final v w. warmup (Suc (Suc (Suc 0))) chain_tree None (\<lambda>scores v. v) Memoize_tree_init
        = Some (Inr (), final) \<and> memo final (''ab'', True) = Some v \<and>
        memo final (''abc'', False) = Some w"
    by fastforce
  with chain_tree_well_formed chain_rank_le session_init [of chain_tree] a_in_all_states a ab
  show ?thesis
    by blast
qed

section \<open>The candidates\<close>

text \<open>
  C7 fails as it is stated: \<^verbatim>\<open>range(1,9)\<close> ends at length eight, so the arrangement of
  all nine symbols, of the length of the board's cell count, is not a candidate.
\<close>

theorem all_states_lacks_length_nine:
  "distinct ''abcdefghi'' \<and> length ''abcdefghi'' = 9 \<and> ''abcdefghi'' \<notin> set all_states"
  by (simp add: set_all_states)

text \<open>
  C7, amended. The warm-up driver generates, as candidate identifiers, all permutations
  of the nine move symbols of every length from 1 up to 8, one less than the board's cell
  count (623529 candidates, the count that the notebook's progress bar shows), and
  attempts \<^verbatim>\<open>determine_move\<close> on each candidate with the fixed role \<^verbatim>\<open>False\<close>.
\<close>

theorem warmup_candidates:
  "set all_states =
     {s. 1 \<le> length s \<and> length s \<le> 8 \<and> distinct s \<and> set s \<subseteq> set ''abcdefghi''} \<and>
   length all_states = 623529 \<and>
   warmup n tree random np_wide self =
     for_loop all_states
       (\<lambda>state self. try_except_pass (determine_move n tree state False (map_option (\<lambda>draw. draw state) random) np_wide self))
       self"
  by (simp only: set_all_states length_all_states warmup_def)

theorem warmup_candidates_witness:
  "''a'' \<in> set all_states \<and> ''hgfedcba'' \<in> set all_states \<and> ''aa'' \<notin> set all_states \<and>
   ''root'' \<notin> set all_states \<and> length all_states = 623529"
  using warmup_candidates [of 0 Map.empty None "\<lambda>scores v. v" Memoize_tree_init]
  by simp

section \<open>Errors during warm-up\<close>

text \<open>
  C8 fails as it is stated: the bare \<^verbatim>\<open>except\<close> takes every exception. In
  \<open>broken_tree\<close> the node \<open>ac\<close> is not terminal and has no child, the evaluator raises
  \<^verbatim>\<open>ValueError\<close> for it (the spec's \<open>InvalidTree\<close>), \<^verbatim>\<open>determine_move\<close> raises it for the
  candidate \<open>a\<close>, and the warm-up driver still runs to its end without an error.
\<close>

theorem warmup_swallows_invalid_tree:
  "broken_tree ''ac'' = Some \<lparr>is_endstate = False, get_value = 0, successors = []\<rparr> \<and>
   minmax_tt (Suc 0) broken_tree ''ac'' True = Some (Inl ValueError) \<and>
   ''a'' \<in> set all_states \<and>
   map_option fst (determine_move (Suc (Suc (Suc 0))) broken_tree ''a'' False None (\<lambda>scores v. v) Memoize_tree_init)
     = Some (Inl ValueError) \<and>
   map_option fst (warmup (Suc (Suc (Suc 0))) broken_tree None (\<lambda>scores v. v) Memoize_tree_init)
     = Some (Inr ())"
proof -
  have 1: "broken_tree ''ac'' = Some \<lparr>is_endstate = False, get_value = 0, successors = []\<rparr>"
    by (simp add: broken_tree_def)
  have 2: "minmax_tt (Suc 0) broken_tree ''ac'' True = Some (Inl ValueError)"
    by (simp add: broken_tree_def tree_getitem_def tree_children_def)
  have "\<exists>final. warmup (Suc (Suc (Suc 0))) broken_tree None (\<lambda>scores v. v) Memoize_tree_init
      = Some (Inr (), final) \<and> True"
    using broken_tree_ranked broken_rank_le by (rule warmup_returns) simp_all
  then have 3: "map_option fst (warmup (Suc (Suc (Suc 0))) broken_tree None (\<lambda>scores v. v) Memoize_tree_init)
     = Some (Inr ())"
    by auto
  from 1 2 a_in_all_states broken_determine_move_a 3 show ?thesis
    by blast
qed

text \<open>
  C8, amended. During warm-up every error that \<^verbatim>\<open>determine_move\<close> raises for a
  candidate, of whatever kind (\<open>NotFound\<close>, \<open>NoLegalMoves\<close> and also \<open>InvalidTree\<close>), is
  caught and discarded, so no candidate aborts the run: on a tree without cycles, with a
  call stack deep enough for the tree, the driver runs to its end and no error leaves it.
\<close>

theorem warmup_discards_every_error:
  assumes "tree_ranked tree rank" and "\<forall>nid. rank nid \<le> n"
  shows "(\<exists>final. warmup n tree random np_wide self = Some (Inr (), final)) \<and>
         (\<forall>e final. warmup n tree random np_wide self \<noteq> Some (Inl e, final)) \<and>
         (\<forall>state e mid. determine_move n tree state False (map_option (\<lambda>draw. draw state) random) np_wide self = Some (Inl e, mid) \<longrightarrow>
            try_except_pass (determine_move n tree state False (map_option (\<lambda>draw. draw state) random) np_wide self)
              = Some (Inr (), mid))"
proof -
  have "\<exists>final. warmup n tree random np_wide self = Some (Inr (), final) \<and> True"
    using assms by (rule warmup_returns) simp_all
  then have "\<exists>final. warmup n tree random np_wide self = Some (Inr (), final)"
    by simp
  moreover have "\<forall>e final. warmup n tree random np_wide self \<noteq> Some (Inl e, final)"
    unfolding warmup_def by (simp add: for_loop_try_never_raises)
  moreover have "\<forall>state e mid.
      determine_move n tree state False (map_option (\<lambda>draw. draw state) random) np_wide self = Some (Inl e, mid) \<longrightarrow>
        try_except_pass (determine_move n tree state False (map_option (\<lambda>draw. draw state) random) np_wide self) = Some (Inr (), mid)"
    by (simp add: try_except_pass_def)
  ultimately show ?thesis
    by blast
qed

theorem warmup_discards_every_error_witness:
  "tree_ranked broken_tree broken_rank \<and> (\<forall>nid. broken_rank nid \<le> Suc (Suc (Suc 0))) \<and>
   determine_move (Suc (Suc (Suc 0))) broken_tree ''a'' False None (\<lambda>scores v. v) Memoize_tree_init =
     Some (Inl ValueError,
           \<lparr>memo = [(''ab'', True) \<mapsto> 1],
            fn_log = [((''ab'', True), Inr 1), ((''ac'', True), Inl ValueError)]\<rparr>) \<and>
   try_except_pass
     (determine_move (Suc (Suc (Suc 0))) broken_tree ''a'' False None (\<lambda>scores v. v) Memoize_tree_init) =
     Some (Inr (),
           \<lparr>memo = [(''ab'', True) \<mapsto> 1],
            fn_log = [((''ab'', True), Inr 1), ((''ac'', True), Inl ValueError)]\<rparr>) \<and>
   (\<exists>final. warmup (Suc (Suc (Suc 0))) broken_tree None (\<lambda>scores v. v) Memoize_tree_init
      = Some (Inr (), final))"
proof -
  have run: "determine_move (Suc (Suc (Suc 0))) broken_tree ''a'' False None (\<lambda>scores v. v) Memoize_tree_init =
     Some (Inl ValueError,
           \<lparr>memo = [(''ab'', True) \<mapsto> 1],
            fn_log = [((''ab'', True), Inr 1), ((''ac'', True), Inl ValueError)]\<rparr>)"
    by (simp add: determine_move_def broken_tree_def eval_defs py_last_def)
  note all = warmup_discards_every_error [OF broken_tree_ranked broken_rank_le,
      of None "\<lambda>scores v. v" Memoize_tree_init]
  from all have discarded: "\<forall>state e mid.
      determine_move (Suc (Suc (Suc 0))) broken_tree state False None (\<lambda>scores v. v) Memoize_tree_init
        = Some (Inl e, mid) \<longrightarrow>
      try_except_pass
        (determine_move (Suc (Suc (Suc 0))) broken_tree state False None (\<lambda>scores v. v) Memoize_tree_init)
        = Some (Inr (), mid)"
    by simp
  from discarded run have caught: "try_except_pass
     (determine_move (Suc (Suc (Suc 0))) broken_tree ''a'' False None (\<lambda>scores v. v) Memoize_tree_init) =
     Some (Inr (),
           \<lparr>memo = [(''ab'', True) \<mapsto> 1],
            fn_log = [((''ab'', True), Inr 1), ((''ac'', True), Inl ValueError)]\<rparr>)"
    by blast
  from all have "\<exists>final. warmup (Suc (Suc (Suc 0))) broken_tree None (\<lambda>scores v. v) Memoize_tree_init
      = Some (Inr (), final)"
    by blast
  with broken_tree_ranked broken_rank_le run caught show ?thesis
    by blast
qed

section \<open>A position without moves\<close>

text \<open>
  C9 does not hold of the notebook as it is committed. For a position identifier that is
  present in the tree and has no children, both comprehensions give the empty list, and
  the \<^verbatim>\<open>return\<close> statement looks up the name \<^verbatim>\<open>random\<close> before it calls \<^verbatim>\<open>max\<close> or \<^verbatim>\<open>min\<close>.
  No cell binds the name, so \<^verbatim>\<open>determine_move\<close> raises \<^verbatim>\<open>NameError\<close>, for either role,
  and not the \<^verbatim>\<open>ValueError\<close> of \<^verbatim>\<open>max\<close> or \<^verbatim>\<open>min\<close> of an empty sequence (the spec's
  \<open>NoLegalMoves\<close>). This is the defect of C5 again. In a session that binds \<^verbatim>\<open>random\<close>
  to the standard module the call raises that \<^verbatim>\<open>ValueError\<close>, as C9 says. In both cases
  the cache is left as it was.
\<close>

theorem determine_move_without_children_raises_name_error:
  assumes "tree current_id = Some current_node" and "successors current_node = []"
  shows "determine_move n tree current_id is_max None np_wide self = Some (Inl NameError, self) \<and>
         determine_move n tree current_id is_max (Some randbelow) np_wide self =
           Some (Inl ValueError, self)"
  using assms by (simp add: determine_move_def tree_children_def np_array_def)

theorem determine_move_without_children_raises_name_error_witness:
  "row_tree ''a'' = Some \<lparr>is_endstate = True, get_value = 1, successors = []\<rparr> \<and>
   determine_move (Suc 0) row_tree ''a'' False None (\<lambda>scores v. v) Memoize_tree_init =
     Some (Inl NameError, Memoize_tree_init) \<and>
   determine_move (Suc 0) row_tree ''a'' False (Some (\<lambda>k. 0)) (\<lambda>scores v. v) Memoize_tree_init =
     Some (Inl ValueError, Memoize_tree_init)"
  using row_tree_a
    determine_move_without_children_raises_name_error
      [of row_tree "''a''" "\<lparr>is_endstate = True, get_value = 1, successors = []\<rparr>"
          "Suc 0" False "\<lambda>scores v. v" Memoize_tree_init "\<lambda>k. 0"]
  by simp

section \<open>Errors are not stored\<close>

text \<open>
  C10 fails as it is stated for the decorated evaluator: the wrapped function calls the
  memoized object for the children, and the scores of the children that were evaluated
  before the error stay stored. In \<open>broken_tree\<close> the call for \<open>a\<close> raises \<^verbatim>\<open>ValueError\<close>
  at the child \<open>ac\<close>, after the score of the child \<open>ab\<close> has been stored.
\<close>

theorem failed_call_changes_memo:
  "memo (Memoize_tree_init :: cache) (''a'', True) = None \<and>
   minmax_tt_memo (Suc (Suc 0)) broken_tree ''a'' True Memoize_tree_init =
     Some (Inl ValueError, broken_cache_once) \<and>
   memo broken_cache_once (''ab'', False) = Some 1 \<and>
   memo (Memoize_tree_init :: cache) (''ab'', False) = None \<and>
   memo broken_cache_once \<noteq> memo (Memoize_tree_init :: cache)"
proof -
  have 1: "memo broken_cache_once (''ab'', False) = Some 1"
    by (simp add: broken_cache_once_def)
  have 2: "memo (Memoize_tree_init :: cache) (''ab'', False) = None"
    by (simp add: Memoize_tree_init_def)
  from 1 2 have "memo broken_cache_once \<noteq> memo (Memoize_tree_init :: cache)"
    by (metis option.distinct(1))
  with 1 2 broken_call_a show ?thesis
    by (simp add: Memoize_tree_init_def)
qed

text \<open>
  C10, amended. When the wrapped function raises an error on a cache miss, the cache
  stores no entry for that key: the call itself writes nothing, so the memo after the
  failed call is the memo as the wrapped function left it. No stored entry is lost or
  changed, and the entries that the nested calls added are entries of identifiers
  below the failing one in the tree. A later call with the same key invokes the
  computation again.
\<close>

theorem failed_call_stores_no_entry_for_its_key:
  assumes "tree_ranked tree rank" and "memo self (current_id, is_max) = None"
    and "minmax_tt_memo n tree current_id is_max self = Some (Inl e, self')"
  shows "memo self' (current_id, is_max) = None \<and>
         (\<forall>key v. memo self key = Some v \<longrightarrow> memo self' key = Some v) \<and>
         (\<forall>key. memo self' key \<noteq> memo self key \<longrightarrow> rank (fst key) < rank current_id) \<and>
         (\<exists>mid. minmax_tt_fn (minmax_tt_memo (n - 1)) tree (current_id, is_max) self = Some (Inl e, mid) \<and>
                memo self' = memo mid) \<and>
         (\<forall>m again self''. minmax_tt_memo m tree current_id is_max self' = Some (again, self'') \<longrightarrow>
            invocations (fn_log self'') (current_id, is_max) =
              Suc (invocations (fn_log self') (current_id, is_max)))"
proof -
  note summary = minmax_tt_memo_miss_summary [OF assms]
  from summary(1) have none: "memo self' (current_id, is_max) = None"
    by simp
  from summary(4) none assms(2)
  have only: "\<forall>key. memo self' key \<noteq> memo self key \<longrightarrow> rank (fst key) < rank current_id"
    by metis
  from minmax_tt_memo_effect [OF assms(1,3)] assms(2)
  have left: "\<exists>mid. minmax_tt_fn (minmax_tt_memo (n - 1)) tree (current_id, is_max) self
      = Some (Inl e, mid) \<and> memo self' = memo mid"
    by auto
  have again: "\<forall>m again self''. minmax_tt_memo m tree current_id is_max self' = Some (again, self'') \<longrightarrow>
            invocations (fn_log self'') (current_id, is_max) =
              Suc (invocations (fn_log self') (current_id, is_max))"
    using minmax_tt_memo_miss_summary(2) [OF assms(1) none] by blast
  from none summary(3) only left again show ?thesis
    by blast
qed

theorem failed_call_stores_no_entry_for_its_key_witness:
  "tree_ranked broken_tree broken_rank \<and>
   memo (Memoize_tree_init :: cache) (''a'', True) = None \<and>
   minmax_tt_memo (Suc (Suc 0)) broken_tree ''a'' True Memoize_tree_init =
     Some (Inl ValueError, broken_cache_once) \<and>
   memo broken_cache_once (''a'', True) = None \<and>
   minmax_tt_memo (Suc (Suc 0)) broken_tree ''a'' True broken_cache_once =
     Some (Inl ValueError, broken_cache_twice) \<and>
   invocations (fn_log broken_cache_twice) (''a'', True) = 2"
proof -
  have absent: "memo (Memoize_tree_init :: cache) (''a'', True) = None"
    by (simp add: Memoize_tree_init_def)
  note failed = failed_call_stores_no_entry_for_its_key [OF broken_tree_ranked absent broken_call_a]
  from failed have 1: "memo broken_cache_once (''a'', True) = None"
    by blast
  from failed broken_call_a_again
  have "invocations (fn_log broken_cache_twice) (''a'', True) =
      Suc (invocations (fn_log broken_cache_once) (''a'', True))"
    by blast
  then have 2: "invocations (fn_log broken_cache_twice) (''a'', True) = 2"
    by (simp add: broken_cache_once_def invocations_def)
  from broken_tree_ranked absent broken_call_a broken_call_a_again 1 2 show ?thesis
    by blast
qed

end
